theory Spec2Isabelle
  imports Main
begin

section \<open>Strings and the JavaScript builtins the download manager calls\<close>

text \<open>
  A JavaScript string is modelled by the list of the bytes of its UTF-8 encoding. The
  characters the code inspects (digits, \<open>;\<close>, \<open>%\<close>, the forbidden characters) are ASCII,
  and no byte of a multi-byte UTF-8 sequence is an ASCII byte.
\<close>

definition DQUOTE :: char where
  "DQUOTE = CHR 0x22"

definition BACKSLASH :: char where
  "BACKSLASH = CHR 0x5C"

definition isDigit :: "char \<Rightarrow> bool" where
  "isDigit c = (let n = (of_char c :: nat) in 48 \<le> n \<and> n \<le> 57)"

definition digitChar :: "nat \<Rightarrow> char" where
  "digitChar d = char_of (48 + d)"

text \<open>The decimal digits of a natural number, most significant first.\<close>

function digits :: "nat \<Rightarrow> string" where
  "digits n = (if n < 10 then [digitChar n] else digits (n div 10) @ [digitChar (n mod 10)])"
  by pat_completeness auto
termination
  by (relation "measure (\<lambda>n. n)") auto

declare digits.simps [simp del]

text \<open>
  \<^verbatim>\<open>Number.prototype.toString()\<close> on an integer id: the decimal rendering, with a
  minus sign for a negative number and no leading zero.
\<close>

definition toString :: "int \<Rightarrow> string" where
  "toString i = (if i < 0 then CHR ''-'' # digits (nat (- i)) else digits (nat i))"

definition toLowerChar :: "char \<Rightarrow> char" where
  "toLowerChar c = (let n = (of_char c :: nat) in if 65 \<le> n \<and> n \<le> 90 then char_of (n + 32) else c)"

definition toLowerCase :: "string \<Rightarrow> string" where
  "toLowerCase s = map toLowerChar s"

subsection \<open>decodeURIComponent\<close>

definition hexDigit :: "char \<Rightarrow> nat option" where
  "hexDigit c = (let n = (of_char c :: nat) in
     if 48 \<le> n \<and> n \<le> 57 then Some (n - 48)
     else if 65 \<le> n \<and> n \<le> 70 then Some (n - 55)
     else if 97 \<le> n \<and> n \<le> 102 then Some (n - 87)
     else None)"

text \<open>
  First pass: every \<open>%\<close> must start an escape \<open>%XX\<close> of two hexadecimal digits. A
  literal character is \<open>Inl\<close>, an escaped octet \<open>Inr\<close>. \<open>None\<close> is the URIError.
\<close>

fun unescape :: "string \<Rightarrow> (char + nat) list option" where
  "unescape [] = Some []"
| "unescape (c # cs) =
     (if c = CHR ''%'' then
        (case cs of
           h1 # h2 # rest \<Rightarrow>
             (case hexDigit h1 of
                None \<Rightarrow> None
              | Some a \<Rightarrow>
                  (case hexDigit h2 of
                     None \<Rightarrow> None
                   | Some b \<Rightarrow> map_option ((#) (Inr (16 * a + b))) (unescape rest)))
         | _ \<Rightarrow> None)
      else map_option ((#) (Inl c)) (unescape cs))"

definition isCont :: "nat \<Rightarrow> bool" where
  "isCont b = (128 \<le> b \<and> b < 192)"

text \<open>
  Second pass: an escaped octet below 128 is the character itself; any other escaped
  octet must open a well-formed UTF-8 sequence whose continuation octets are escaped
  too (no overlong form, no surrogate, nothing above U+10FFFF). The decoded character is
  kept as its UTF-8 bytes.
\<close>

fun utf8 :: "(char + nat) list \<Rightarrow> string option" where
  "utf8 [] = Some []"
| "utf8 (Inl c # xs) = map_option ((#) c) (utf8 xs)"
| "utf8 (Inr b # xs) =
     (if b < 128 then map_option ((#) (char_of b)) (utf8 xs)
      else if 192 \<le> b \<and> b < 224 then
        (case xs of
           Inr c1 # ys \<Rightarrow>
             (if isCont c1 \<and> 128 \<le> (b - 192) * 64 + (c1 - 128)
              then map_option ((@) [char_of b, char_of c1]) (utf8 ys) else None)
         | _ \<Rightarrow> None)
      else if 224 \<le> b \<and> b < 240 then
        (case xs of
           Inr c1 # Inr c2 # ys \<Rightarrow>
             (let v = (b - 224) * 4096 + (c1 - 128) * 64 + (c2 - 128) in
              if isCont c1 \<and> isCont c2 \<and> 2048 \<le> v \<and> \<not> (55296 \<le> v \<and> v \<le> 57343)
              then map_option ((@) [char_of b, char_of c1, char_of c2]) (utf8 ys) else None)
         | _ \<Rightarrow> None)
      else if 240 \<le> b \<and> b < 248 then
        (case xs of
           Inr c1 # Inr c2 # Inr c3 # ys \<Rightarrow>
             (let v = (b - 240) * 262144 + (c1 - 128) * 4096 + (c2 - 128) * 64 + (c3 - 128) in
              if isCont c1 \<and> isCont c2 \<and> isCont c3 \<and> 65536 \<le> v \<and> v \<le> 1114111
              then map_option ((@) [char_of b, char_of c1, char_of c2, char_of c3]) (utf8 ys)
              else None)
         | _ \<Rightarrow> None)
      else None)"

definition decodeURIComponent :: "string \<Rightarrow> string option" where
  "decodeURIComponent s = (case unescape s of None \<Rightarrow> None | Some xs \<Rightarrow> utf8 xs)"

subsection \<open>Util.replaceForbiddenChars\<close>

definition forbiddenChars :: "char list" where
  "forbiddenChars =
     [CHR '' '', CHR ''/'', CHR ''<'', CHR ''>'', CHR '':'', DQUOTE, BACKSLASH,
      CHR ''|'', CHR ''?'', CHR ''*'']"

text \<open>
  Modelled from the spec: \<^verbatim>\<open>Util.replaceForbiddenChars\<close> (\<^verbatim>\<open>src/util.ts\<close> is not
  among the sources). The spec has it strip the characters forbidden in a path segment,
  "space, \<^verbatim>\<open>/ < > : " \ | ? *\<close>, and runs thereof"; the earlier \<^verbatim>\<open>getFilename\<close> of
  the repository replaces the matches of \<^verbatim>\<open>/( |\/|<|>|:|"|\\|\||\?|\*)+/g\<close> by the empty
  string, which removes exactly these characters.
\<close>

definition replaceForbiddenChars :: "string \<Rightarrow> string" where
  "replaceForbiddenChars s = filter (\<lambda>c. c \<notin> set forbiddenChars) s"

section \<open>Responses and the filename resolver\<close>

text \<open>
  The part of an undici \<^verbatim>\<open>Response\<close> the manager reads: the status, the headers (a
  list of name and value) and whether there is a body (\<^verbatim>\<open>response.body\<close> is null
  otherwise).
\<close>

record Response =
  status :: nat
  headers :: "(string \<times> string) list"
  hasBody :: bool

text \<open>
  \<^verbatim>\<open>Headers.get(name)\<close>: names are compared without case, the values of a repeated
  header are joined with a comma and a space, an absent header gives null.
\<close>

fun joinValues :: "string list \<Rightarrow> string" where
  "joinValues [] = []"
| "joinValues [v] = v"
| "joinValues (v # vs) = v @ '', '' @ joinValues vs"

definition headers_get :: "(string \<times> string) list \<Rightarrow> string \<Rightarrow> string option" where
  "headers_get hs name =
     (case filter (\<lambda>kv. toLowerCase (fst kv) = toLowerCase name) hs of
        [] \<Rightarrow> None
      | kvs \<Rightarrow> Some (joinValues (map snd kvs)))"

text \<open>
  \<^verbatim>\<open>/filename=([^;]+)/g.exec(s)\<close> on a fresh regular expression: the leftmost
  position where \<^verbatim>\<open>filename=\<close> is followed by at least one character other than
  \<open>;\<close>; the group is the longest run of such characters.
\<close>

fun filenameMatch :: "string \<Rightarrow> string option" where
  "filenameMatch [] = None"
| "filenameMatch (c # cs) =
     (let tok = takeWhile (\<lambda>x. x \<noteq> CHR '';'') (drop 9 (c # cs)) in
      if take 9 (c # cs) = ''filename='' \<and> tok \<noteq> [] then Some tok else filenameMatch cs)"

datatype OcdlError = FILE_NAME_EXTRACTION_FAILED

definition defaultFileName :: string where
  "defaultFileName = ''Untitled.osz''"

text \<open>
  \<^verbatim>\<open>_getFilename\<close>, with \<^verbatim>\<open>Util.replaceForbiddenChars\<close> as the parameter
  \<open>sanitize\<close>: the helper is not among the sources, and nothing else in the function
  depends on it. \<open>Inl\<close> is the thrown \<^verbatim>\<open>OcdlError\<close>. An empty header value is falsy in
  JavaScript and takes the default as a missing header does.
\<close>

definition getFilenameWith :: "(string \<Rightarrow> string) \<Rightarrow> Response \<Rightarrow> OcdlError + string" where
  "getFilenameWith sanitize response =
     (case headers_get (headers response) ''content-disposition'' of
        None \<Rightarrow> Inr defaultFileName
      | Some contentDisposition \<Rightarrow>
          (if contentDisposition = [] then Inr defaultFileName
           else
             (case filenameMatch contentDisposition of
                None \<Rightarrow> Inr defaultFileName
              | Some tok \<Rightarrow>
                  (case decodeURIComponent tok of
                     None \<Rightarrow> Inl FILE_NAME_EXTRACTION_FAILED
                   | Some decoded \<Rightarrow> Inr (sanitize decoded)))))"

text \<open>
  The resolver as the run calls it, with the sanitizer modelled from the spec. The run
  reads only whether a name was resolved or the error was thrown, which does not depend
  on the sanitizer.
\<close>

definition getFilename :: "Response \<Rightarrow> OcdlError + string" where
  "getFilename response = getFilenameWith replaceForbiddenChars response"

section \<open>The download manager\<close>

subsection \<open>Data\<close>

text \<open>
  Modelled from the spec: \<^verbatim>\<open>BeatMapSet\<close> (\<^verbatim>\<open>struct/BeatMapSet.ts\<close> is not among the
  sources). The spec's target is a numeric id and a display name; the manager reads the
  id only.
\<close>

record BeatMapSet =
  id_bms :: int

text \<open>The fields of \<^verbatim>\<open>Manager.config\<close> the manager reads.\<close>

record Config =
  cfg_parallel :: bool
  cfg_concurrency :: nat
  cfg_intervalCap :: nat
  cfg_interval :: nat

text \<open>What the catch block of \<^verbatim>\<open>_downloadFile\<close> can receive.\<close>

datatype cause =
    StatusCode nat
  | BodyNull
  | Extraction OcdlError
  | Thrown

text \<open>The events of \<^verbatim>\<open>DownloadManagerEvents\<close>, with their arguments.\<close>

datatype Event =
    Downloaded BeatMapSet
  | Error BeatMapSet cause
  | Retrying BeatMapSet
  | Downloading BeatMapSet
  | RateLimited
  | End "BeatMapSet list"
  | Indexing nat nat
  | Skipped BeatMapSet

text \<open>
  The two closures the manager hands to \<^verbatim>\<open>queue.add\<close>: the one of \<^verbatim>\<open>bulkDownload\<close>,
  which counts the target as processed once \<^verbatim>\<open>_downloadFile\<close> has returned, and the one
  of the 429 branch, which only calls \<^verbatim>\<open>_downloadFile\<close>.
\<close>

datatype job = Counted BeatMapSet | Requeued BeatMapSet

text \<open>
  Where a started queue task is suspended: awaiting the response, reading the body,
  \<^verbatim>\<open>_downloadFile\<close> returned (the closure's continuation is pending), the closure
  returned (the queue's own continuation is pending), finished.
\<close>

datatype phase = AwaitFetch | AwaitBody | Returned | Settled | Finished

text \<open>
  A started task: the target, the \<^verbatim>\<open>options\<close> of the call of \<^verbatim>\<open>_downloadFile\<close> that is
  in flight (\<open>alt\<close> is the \<^verbatim>\<open>alternative\<close> flag its fetch was given), and whether the
  closure is the counting one. The retry in the catch block awaits the nested call inside
  the same queue task, so a chain of retries is one task whose options change.
\<close>

record Task =
  target :: BeatMapSet
  retries :: nat
  alt :: bool
  counts :: bool
  phase :: phase

text \<open>
  Modelled from the spec: the queue. It is the p-queue library, a dependency that is not
  part of the repository, and it is modelled by the contract the spec gives it: tasks
  start in submission order, a task may start only while the queue is not paused and
  fewer than \<open>concurrency\<close> tasks are pending, and \<^verbatim>\<open>idle\<close> fires when a task finishes
  and leaves no task pending and none waiting. When a task starts is left to the schedule
  (action \<open>Start\<close> below), which covers the interval cap. \<open>started\<close> keeps every task
  that was ever started, in start order, so that a task keeps its index.
\<close>

record PQueue =
  isPaused :: bool
  concurrency :: nat
  waiting :: "job list"
  started :: "Task list"

definition pending :: "PQueue \<Rightarrow> nat" where
  "pending q = length (filter (\<lambda>t. phase t \<noteq> Finished) (started q))"

text \<open>
  The fields of the class, the two local variables of \<^verbatim>\<open>bulkDownload\<close> that its
  closures share (\<open>processedCount\<close>, \<open>totalCount\<close>), the delays in milliseconds of the
  pending \<^verbatim>\<open>setTimeout\<close> callbacks (each calls \<^verbatim>\<open>queue.start()\<close>), and the events
  emitted so far, oldest first. \<^verbatim>\<open>end\<close> is recorded with the value the failed list had
  when it was emitted.
\<close>

record DownloadManager =
  songsDirectory :: string
  existingBeatmaps :: "string \<rightharpoonup> bool"
  indexedSongs :: nat
  totalSongs :: nat
  queue :: PQueue
  downloadedBeatMapSetSize :: nat
  notDownloadedBeatMapSet :: "BeatMapSet list"
  testRequest :: bool
  processedCount :: nat
  totalCount :: nat
  timers :: "nat list"
  emitted :: "Event list"

definition configuredConcurrency :: "Config \<Rightarrow> nat" where
  "configuredConcurrency cfg = (if cfg_parallel cfg then cfg_concurrency cfg else 1)"

definition new_DownloadManager :: "Config \<Rightarrow> DownloadManager" where
  "new_DownloadManager cfg =
     \<lparr>songsDirectory = [], existingBeatmaps = Map.empty, indexedSongs = 0, totalSongs = 0,
      queue = \<lparr>isPaused = False, concurrency = configuredConcurrency cfg,
               waiting = [], started = []\<rparr>,
      downloadedBeatMapSetSize = 0, notDownloadedBeatMapSet = [], testRequest = False,
      processedCount = 0, totalCount = 0, timers = [], emitted = []\<rparr>"

definition emit :: "Event \<Rightarrow> DownloadManager \<Rightarrow> DownloadManager" where
  "emit e s = s\<lparr>emitted := emitted s @ [e]\<rparr>"

subsection \<open>The existing-item index\<close>

text \<open>\<^verbatim>\<open>file.match(/^(\d+)/)\<close>: the longest run of digits the name starts with, if any.\<close>

definition leadingDigits :: "string \<Rightarrow> string option" where
  "leadingDigits file = (let tok = takeWhile isDigit file in if tok = [] then None else Some tok)"

definition indexEntry :: "DownloadManager \<Rightarrow> string \<Rightarrow> DownloadManager" where
  "indexEntry s file =
     (let s1 = (case leadingDigits file of
                  None \<Rightarrow> s
                | Some tok \<Rightarrow> s\<lparr>existingBeatmaps := (existingBeatmaps s)(tok \<mapsto> True)\<rparr>);
          s2 = s1\<lparr>indexedSongs := indexedSongs s1 + 1\<rparr>
      in emit (Indexing (indexedSongs s2) (totalSongs s2)) s2)"

text \<open>
  \<^verbatim>\<open>_indexSongsFolder\<close>. The first argument is what \<^verbatim>\<open>readdirSync(directory)\<close> gives:
  the entries, or \<open>None\<close> when it throws, which the catch block only logs.
\<close>

definition indexSongsFolder :: "string list option \<Rightarrow> DownloadManager \<Rightarrow> DownloadManager" where
  "indexSongsFolder listing s =
     (case listing of
        None \<Rightarrow> s
      | Some files \<Rightarrow> foldl indexEntry (s\<lparr>totalSongs := length files\<rparr>) files)"

definition isBeatmapExisting :: "DownloadManager \<Rightarrow> int \<Rightarrow> bool" where
  "isBeatmapExisting s beatmapId = (existingBeatmaps s (toString beatmapId) \<noteq> None)"

definition setSongsDirectory ::
  "string \<Rightarrow> string list option \<Rightarrow> DownloadManager \<Rightarrow> DownloadManager" where
  "setSongsDirectory directory listing s = indexSongsFolder listing (s\<lparr>songsDirectory := directory\<rparr>)"

definition getDownloadedBeatMapSetSize :: "DownloadManager \<Rightarrow> nat" where
  "getDownloadedBeatMapSetSize s = downloadedBeatMapSetSize s"

subsection \<open>The throttle\<close>

text \<open>
  The listener \<^verbatim>\<open>bulkDownload\<close> registers for \<^verbatim>\<open>rateLimited\<close>. \<^verbatim>\<open>setTimeout\<close> with
  \<^verbatim>\<open>60e3\<close> is recorded as a timer of 60000 milliseconds.
\<close>

definition onRateLimited :: "DownloadManager \<Rightarrow> DownloadManager" where
  "onRateLimited s =
     (if \<not> isPaused (queue s) then
        s\<lparr>testRequest := True,
          queue := (queue s)\<lparr>isPaused := True, concurrency := 1\<rparr>,
          timers := timers s @ [60000]\<rparr>
      else s)"

definition emitRateLimited :: "DownloadManager \<Rightarrow> DownloadManager" where
  "emitRateLimited s = onRateLimited (emit RateLimited s)"

text \<open>\<^verbatim>\<open>queue.add\<close>: the job joins the end of the waiting line.\<close>

definition queue_add :: "job \<Rightarrow> DownloadManager \<Rightarrow> DownloadManager" where
  "queue_add j s = s\<lparr>queue := (queue s)\<lparr>waiting := waiting (queue s) @ [j]\<rparr>\<rparr>"

subsection \<open>One attempt\<close>

text \<open>
  \<^verbatim>\<open>_downloadFile\<close> suspends where it awaits, and other tasks run meanwhile. It is
  modelled by the pieces between its suspensions: \<open>startTask\<close> (the call, up to the
  awaited fetch), \<open>onResponse\<close> (from the response to the next suspension), \<open>onBody\<close>
  (from the end of the body to the return) and \<open>onCatch\<close> (the catch block). The files
  it writes are not modelled.
\<close>

definition setTask :: "nat \<Rightarrow> Task \<Rightarrow> DownloadManager \<Rightarrow> DownloadManager" where
  "setTask i t s = s\<lparr>queue := (queue s)\<lparr>started := (started (queue s))[i := t]\<rparr>\<rparr>"

definition taskAt :: "DownloadManager \<Rightarrow> nat \<Rightarrow> Task" where
  "taskAt s i = started (queue s) ! i"

text \<open>
  What a job runs when the queue starts it: \<^verbatim>\<open>_downloadFile(beatMapSet)\<close> with the
  default options, up to the fetch it awaits.
\<close>

definition startTask :: "job \<Rightarrow> Task" where
  "startTask j =
     (case j of
        Counted b \<Rightarrow> \<lparr>target = b, retries = 3, alt = False, counts = True, phase = AwaitFetch\<rparr>
      | Requeued b \<Rightarrow> \<lparr>target = b, retries = 3, alt = False, counts = False, phase = AwaitFetch\<rparr>)"

text \<open>
  The catch block of \<^verbatim>\<open>_downloadFile\<close>, for task \<open>i\<close>. With retries left it emits
  \<^verbatim>\<open>retrying\<close> and calls \<^verbatim>\<open>_downloadFile\<close> again, which emits \<^verbatim>\<open>downloading\<close> and
  awaits its fetch; with none it emits \<^verbatim>\<open>error\<close>, records the target and returns.
\<close>

definition onCatch :: "cause \<Rightarrow> nat \<Rightarrow> DownloadManager \<Rightarrow> DownloadManager" where
  "onCatch e i s =
     (let t = taskAt s i in
      if retries t \<noteq> 0 then
        setTask i (t\<lparr>alt := (retries t = 1), retries := retries t - 1, phase := AwaitFetch\<rparr>)
          (emit (Downloading (target t)) (emit (Retrying (target t)) s))
      else
        setTask i (t\<lparr>phase := Returned\<rparr>)
          ((emit (Error (target t) e) s)
             \<lparr>notDownloadedBeatMapSet := notDownloadedBeatMapSet s @ [target t]\<rparr>))"

text \<open>
  What the awaited \<^verbatim>\<open>Requestor.fetchDownloadCollection\<close> gives: a response, or an
  exception. \<open>Rejects\<close> also stands for an exception raised in the try block before
  the fetch (\<^verbatim>\<open>mkdirSync\<close>).
\<close>

datatype outcome = Rejects | Resp Response

text \<open>The probe: the first response with status 200 after a pause restores the concurrency.\<close>

definition endProbe :: "Config \<Rightarrow> DownloadManager \<Rightarrow> DownloadManager" where
  "endProbe cfg s =
     (if testRequest s then
        s\<lparr>testRequest := False,
          queue := (queue s)\<lparr>concurrency := configuredConcurrency cfg\<rparr>\<rparr>
      else s)"

text \<open>\<^verbatim>\<open>_downloadFile\<close> from the response to its next suspension, for task \<open>i\<close>.\<close>

definition onResponse :: "Config \<Rightarrow> outcome \<Rightarrow> nat \<Rightarrow> DownloadManager \<Rightarrow> DownloadManager" where
  "onResponse cfg out i s =
     (case out of
        Rejects \<Rightarrow> onCatch Thrown i s
      | Resp response \<Rightarrow>
          (if status response = 429 then
             (let s1 = emitRateLimited s;
                  s2 = queue_add (Requeued (target (taskAt s i))) s1
              in setTask i ((taskAt s2 i)\<lparr>phase := Returned\<rparr>) s2)
           else if status response \<noteq> 200 then onCatch (StatusCode (status response)) i s
           else
             (let s1 = endProbe cfg s in
              case getFilename response of
                Inl e \<Rightarrow> onCatch (Extraction e) i s1
              | Inr fileName \<Rightarrow>
                  (if hasBody response then setTask i ((taskAt s1 i)\<lparr>phase := AwaitBody\<rparr>) s1
                   else onCatch BodyNull i s1))))"

text \<open>The end of the body: the stream was read to its end, or it raised.\<close>

definition onBody :: "bool \<Rightarrow> nat \<Rightarrow> DownloadManager \<Rightarrow> DownloadManager" where
  "onBody ok i s =
     (if ok then
        setTask i ((taskAt s i)\<lparr>phase := Returned\<rparr>)
          (emit (Downloaded (target (taskAt s i)))
             (s\<lparr>downloadedBeatMapSetSize := downloadedBeatMapSetSize s + 1\<rparr>))
      else onCatch Thrown i s)"

subsection \<open>bulkDownload and the run\<close>

text \<open>
  The test the closures of \<^verbatim>\<open>bulkDownload\<close> make after \<^verbatim>\<open>processedCount++\<close>.
\<close>

definition countProcessed :: "DownloadManager \<Rightarrow> DownloadManager" where
  "countProcessed s =
     (let s1 = s\<lparr>processedCount := processedCount s + 1\<rparr> in
      if processedCount s1 = totalCount s1 then emit (End (notDownloadedBeatMapSet s1)) s1 else s1)"

text \<open>The body of the \<^verbatim>\<open>forEach\<close> of \<^verbatim>\<open>bulkDownload\<close>.\<close>

definition visit :: "DownloadManager \<Rightarrow> BeatMapSet \<Rightarrow> DownloadManager" where
  "visit s beatMapSet =
     (if isBeatmapExisting s (id_bms beatMapSet) then
        countProcessed
          (emit (Skipped beatMapSet)
             (s\<lparr>downloadedBeatMapSetSize := downloadedBeatMapSetSize s + 1\<rparr>))
      else queue_add (Counted beatMapSet) s)"

text \<open>
  \<^verbatim>\<open>bulkDownload\<close> over the sets of the collection, in the order of its map. The two
  listeners it registers last are part of the steps below: no task can finish and no
  response can arrive before \<^verbatim>\<open>bulkDownload\<close> returns.
\<close>

definition bulkDownload :: "BeatMapSet list \<Rightarrow> DownloadManager \<Rightarrow> DownloadManager" where
  "bulkDownload beatMapSets s =
     foldl visit (s\<lparr>processedCount := 0, totalCount := length beatMapSets\<rparr>) beatMapSets"

text \<open>
  What can happen next in a run: the queue starts the first waiting job; the fetch of
  task \<open>i\<close> settles; the body of task \<open>i\<close> ends; the closure of task \<open>i\<close> resumes after
  \<^verbatim>\<open>_downloadFile\<close>; the queue resumes after the closure of task \<open>i\<close>; the oldest timer
  fires.
\<close>

datatype action =
    Start
  | Respond nat outcome
  | BodyDone nat bool
  | Settle nat
  | Next nat
  | TimerFire

definition inPhase :: "DownloadManager \<Rightarrow> nat \<Rightarrow> phase \<Rightarrow> bool" where
  "inPhase s i p = (i < length (started (queue s)) \<and> phase (taskAt s i) = p)"

text \<open>
  The listener of the queue's \<^verbatim>\<open>idle\<close> event emits \<^verbatim>\<open>end\<close>; it tests nothing.
\<close>

definition onIdle :: "DownloadManager \<Rightarrow> DownloadManager" where
  "onIdle s = emit (End (notDownloadedBeatMapSet s)) s"

text \<open>One step of the run; \<open>None\<close> when the action cannot happen in the state.\<close>

definition step :: "Config \<Rightarrow> action \<Rightarrow> DownloadManager \<Rightarrow> DownloadManager option" where
  "step cfg a s =
     (case a of
        Start \<Rightarrow>
          (case waiting (queue s) of
             [] \<Rightarrow> None
           | j # js \<Rightarrow>
               (if \<not> isPaused (queue s) \<and> pending (queue s) < concurrency (queue s) then
                  Some (emit (Downloading (target (startTask j)))
                          (s\<lparr>queue := (queue s)\<lparr>waiting := js,
                                started := started (queue s) @ [startTask j]\<rparr>\<rparr>))
                else None))
      | Respond i out \<Rightarrow>
          (if inPhase s i AwaitFetch then Some (onResponse cfg out i s) else None)
      | BodyDone i ok \<Rightarrow>
          (if inPhase s i AwaitBody then Some (onBody ok i s) else None)
      | Settle i \<Rightarrow>
          (if inPhase s i Returned then
             Some (setTask i ((taskAt s i)\<lparr>phase := Settled\<rparr>)
                     (if counts (taskAt s i) then countProcessed s else s))
           else None)
      | Next i \<Rightarrow>
          (if inPhase s i Settled then
             (let s1 = setTask i ((taskAt s i)\<lparr>phase := Finished\<rparr>) s in
              Some (if waiting (queue s1) = [] \<and> pending (queue s1) = 0 then onIdle s1 else s1))
           else None)
      | TimerFire \<Rightarrow>
          (case timers s of
             [] \<Rightarrow> None
           | d # ds \<Rightarrow> Some (s\<lparr>timers := ds, queue := (queue s)\<lparr>isPaused := False\<rparr>\<rparr>)))"

fun exec :: "Config \<Rightarrow> action list \<Rightarrow> DownloadManager \<Rightarrow> DownloadManager option" where
  "exec cfg [] s = Some s"
| "exec cfg (a # as) s = (case step cfg a s of None \<Rightarrow> None | Some s' \<Rightarrow> exec cfg as s')"

text \<open>Counting the events of one kind in the log.\<close>

definition isEnd :: "Event \<Rightarrow> bool" where
  "isEnd e = (case e of End f \<Rightarrow> True | _ \<Rightarrow> False)"

definition isDownloaded :: "Event \<Rightarrow> bool" where
  "isDownloaded e = (case e of Downloaded b \<Rightarrow> True | _ \<Rightarrow> False)"

definition isSkipped :: "Event \<Rightarrow> bool" where
  "isSkipped e = (case e of Skipped b \<Rightarrow> True | _ \<Rightarrow> False)"

definition countEvents :: "(Event \<Rightarrow> bool) \<Rightarrow> DownloadManager \<Rightarrow> nat" where
  "countEvents P s = length (filter P (emitted s))"

subsection \<open>Attempts that fail, and what the run still owes\<close>

text \<open>A response whose body the manager starts to read: status 200, a filename, a body.\<close>

definition streams :: "Response \<Rightarrow> bool" where
  "streams r =
     (status r = 200 \<and> (case getFilename r of Inl e \<Rightarrow> False | Inr n \<Rightarrow> True) \<and> hasBody r)"

text \<open>
  An outcome of the fetch that sends \<^verbatim>\<open>_downloadFile\<close> to its catch block at once: an
  exception, or a response that is not rate-limited and is not read.
\<close>

definition failsAtOnce :: "outcome \<Rightarrow> bool" where
  "failsAtOnce out = (case out of Rejects \<Rightarrow> True | Resp r \<Rightarrow> status r \<noteq> 429 \<and> \<not> streams r)"

text \<open>
  The actions of one failed attempt of task \<open>i\<close>: the fetch fails at once, or the body
  is started and its stream raises.
\<close>

fun failedAttempt :: "nat \<Rightarrow> action list \<Rightarrow> bool" where
  "failedAttempt i [Respond j out] = (j = i \<and> failsAtOnce out)"
| "failedAttempt i [Respond j out, BodyDone k ok] =
     (j = i \<and> k = i \<and> \<not> ok \<and> (case out of Rejects \<Rightarrow> False | Resp r \<Rightarrow> streams r))"
| "failedAttempt i acts = False"

text \<open>
  The counting closures that have not counted yet: the waiting jobs of \<^verbatim>\<open>bulkDownload\<close>
  and the started ones whose closure has not resumed.
\<close>

definition isCounted :: "job \<Rightarrow> bool" where
  "isCounted j = (case j of Counted b \<Rightarrow> True | Requeued b \<Rightarrow> False)"

definition owes :: "Task \<Rightarrow> bool" where
  "owes t = (counts t \<and> phase t \<noteq> Settled \<and> phase t \<noteq> Finished)"

definition unsettled :: "DownloadManager \<Rightarrow> nat" where
  "unsettled s =
     length (filter isCounted (waiting (queue s))) + length (filter owes (started (queue s)))"

text \<open>
  What holds throughout a run, once \<^verbatim>\<open>bulkDownload\<close> has returned: every counting
  closure counts once, so the processed targets and the closures that have not counted
  yet add up to the total; and \<^verbatim>\<open>end\<close> has been emitted once if the counter has reached
  a total that is not zero, and once more if the queue has started a task and has
  nothing pending and nothing waiting.
\<close>

definition runInvariant :: "DownloadManager \<Rightarrow> bool" where
  "runInvariant s =
     (processedCount s + unsettled s = totalCount s \<and>
      countEvents isEnd s =
        (if 0 < totalCount s \<and> processedCount s = totalCount s then 1 else 0) +
        (if started (queue s) \<noteq> [] \<and> waiting (queue s) = [] \<and> pending (queue s) = 0
         then 1 else 0))"

text \<open>The counter of downloaded sets against the log of events.\<close>

definition tally :: "DownloadManager \<Rightarrow> bool" where
  "tally s = (downloadedBeatMapSetSize s = countEvents isDownloaded s + countEvents isSkipped s)"

text \<open>
  A step of task \<open>i\<close> that neither counts nor finishes: the task keeps its closure and
  stays before \<open>Settled\<close>, the counters and the \<^verbatim>\<open>end\<close> events are unchanged, and no
  counting job joins or leaves the queue.
\<close>

definition advances :: "nat \<Rightarrow> DownloadManager \<Rightarrow> DownloadManager \<Rightarrow> bool" where
  "advances i s s' =
     ((\<exists>t. started (queue s') = (started (queue s))[i := t] \<and>
           counts t = counts (taskAt s i) \<and> phase t \<noteq> Settled \<and> phase t \<noteq> Finished) \<and>
      processedCount s' = processedCount s \<and> totalCount s' = totalCount s \<and>
      countEvents isEnd s' = countEvents isEnd s \<and>
      filter isCounted (waiting (queue s')) = filter isCounted (waiting (queue s)))"

subsection \<open>Inputs of the examples\<close>

text \<open>
  The configuration \<^verbatim>\<open>Config\<close> builds when the file gives no values, one catalog entry,
  a run over this entry alone, a run over two entries, a manager that has indexed a
  directory holding this entry, and responses with a given status.
\<close>

definition ex_cfg :: Config where
  "ex_cfg = \<lparr>cfg_parallel = True, cfg_concurrency = 3, cfg_intervalCap = 50, cfg_interval = 60\<rparr>"

definition ex_set :: BeatMapSet where
  "ex_set = \<lparr>id_bms = 1\<rparr>"

definition ex_run :: DownloadManager where
  "ex_run = bulkDownload [ex_set] (new_DownloadManager ex_cfg)"

definition ex_run2 :: DownloadManager where
  "ex_run2 = bulkDownload [ex_set, \<lparr>id_bms = 2\<rparr>] (new_DownloadManager ex_cfg)"

definition ex_indexed :: DownloadManager where
  "ex_indexed =
     setSongsDirectory ''Songs'' (Some [''1 Artist - Title'']) (new_DownloadManager ex_cfg)"


definition ex_resp :: "nat \<Rightarrow> Response" where
  "ex_resp st = \<lparr>status = st, headers = [], hasBody = True\<rparr>"

definition ex_undecodable :: Response where
  "ex_undecodable =
     \<lparr>status = 200,
      headers = [(''content-disposition'', ''attachment; filename=%E0%A4%A'')],
      hasBody = True\<rparr>"

section \<open>Properties\<close>

subsection \<open>Decimal rendering\<close>

lemma of_char_digitChar: "d < 10 \<Longrightarrow> (of_char (digitChar d) :: nat) = 48 + d"
  unfolding digitChar_def of_char_of by simp

lemma digitChar_zero: "digitChar 0 = CHR ''0''"
  by code_simp

lemma digitChar_zero_iff: "d < 10 \<Longrightarrow> (digitChar d = CHR ''0'') = (d = 0)"
proof
  assume d: "d < 10" and e: "digitChar d = CHR ''0''"
  have "(of_char (digitChar d) :: nat) = 48" unfolding e by simp
  with d show "d = 0" by (simp add: of_char_digitChar)
next
  assume "d = 0"
  then show "digitChar d = CHR ''0''" by (simp add: digitChar_zero)
qed

lemma digits_nonempty: "digits n \<noteq> []"
  by (subst digits.simps) simp

lemma digits_hd: "0 < n \<Longrightarrow> hd (digits n) \<noteq> CHR ''0''"
proof (induction n rule: digits.induct)
  case (1 n)
  show ?case
  proof (cases "n < 10")
    case True
    with "1.prems" show ?thesis
      by (subst digits.simps) (simp add: digitChar_zero_iff)
  next
    case False
    then have "0 < n div 10" by simp
    with False "1.IH" have "hd (digits (n div 10)) \<noteq> CHR ''0''" by simp
    with False show ?thesis
      by (subst digits.simps) (simp add: digits_nonempty)
  qed
qed

lemma digits_no_leading_zero: "digits n \<noteq> CHR ''0'' # c # t"
proof (cases "n = 0")
  case True
  then show ?thesis by (subst digits.simps) simp
next
  case False
  then have "hd (digits n) \<noteq> CHR ''0''" by (simp add: digits_hd)
  then show ?thesis by auto
qed

lemma toString_no_leading_zero: "toString i \<noteq> CHR ''0'' # c # t"
  by (simp add: toString_def digits_no_leading_zero)

subsection \<open>Filenames\<close>

lemma replaceForbiddenChars_clean: "c \<in> set (replaceForbiddenChars s) \<Longrightarrow> c \<notin> set forbiddenChars"
  by (simp add: replaceForbiddenChars_def)

lemma defaultFileName_clean: "c \<in> set defaultFileName \<Longrightarrow> c \<notin> set forbiddenChars"
  by (auto simp: defaultFileName_def forbiddenChars_def DQUOTE_def BACKSLASH_def)

lemma getFilename_cases:
  "getFilename r = Inr name \<Longrightarrow> name = defaultFileName \<or> (\<exists>d. name = replaceForbiddenChars d)"
  by (auto simp: getFilename_def getFilenameWith_def split: option.splits if_splits)

lemma getFilename_clean:
  "getFilename r = Inr name \<Longrightarrow> c \<in> set name \<Longrightarrow> c \<notin> set forbiddenChars"
  using getFilename_cases [of r name] replaceForbiddenChars_clean defaultFileName_clean by blast

lemma filenameMatch_nonempty: "filenameMatch cd = Some tok \<Longrightarrow> cd \<noteq> []"
  by (cases cd) auto

lemma getFilename_decode_failure:
  "headers_get (headers r) ''content-disposition'' = Some cd \<Longrightarrow> filenameMatch cd = Some tok \<Longrightarrow>
   decodeURIComponent tok = None \<Longrightarrow> getFilename r = Inl FILE_NAME_EXTRACTION_FAILED"
  using filenameMatch_nonempty [of cd tok] by (simp add: getFilename_def getFilenameWith_def)

subsection \<open>The index\<close>

lemma foldl_indexEntry_total: "totalSongs (foldl indexEntry s fs) = totalSongs s"
  by (induction fs arbitrary: s) (auto simp: indexEntry_def emit_def Let_def split: option.splits)

lemma foldl_indexEntry_indexed: "indexedSongs (foldl indexEntry s fs) = indexedSongs s + length fs"
  by (induction fs arbitrary: s) (auto simp: indexEntry_def emit_def Let_def split: option.splits)

lemma foldl_indexEntry_emitted:
  "emitted (foldl indexEntry s fs) =
     emitted s @ map (\<lambda>k. Indexing (indexedSongs s + k) (totalSongs s)) [1..<Suc (length fs)]"
proof (induction fs arbitrary: s)
  case Nil
  show ?case by simp
next
  case (Cons f fs)
  have ts: "totalSongs (indexEntry s f) = totalSongs s"
    by (simp add: indexEntry_def emit_def Let_def split: option.splits)
  have ix: "indexedSongs (indexEntry s f) = Suc (indexedSongs s)"
    by (simp add: indexEntry_def emit_def Let_def split: option.splits)
  have em: "emitted (indexEntry s f) = emitted s @ [Indexing (Suc (indexedSongs s)) (totalSongs s)]"
    by (simp add: indexEntry_def emit_def Let_def split: option.splits)
  have "[1..<Suc (Suc (length fs))] = 1 # map Suc [1..<Suc (length fs)]"
    by (metis One_nat_def map_Suc_upt upt_conv_Cons zero_less_Suc Suc_less_eq)
  then show ?case
    using Cons.IH [of "indexEntry s f"] by (simp add: ts ix em comp_def)
qed

lemma foldl_indexEntry_existing:
  "existingBeatmaps (foldl indexEntry s fs) tok =
     (if tok \<in> set (List.map_filter leadingDigits fs) then Some True else existingBeatmaps s tok)"
proof (induction fs arbitrary: s)
  case Nil
  show ?case by (simp add: List.map_filter_simps)
next
  case (Cons f fs)
  have ex: "existingBeatmaps (indexEntry s f) =
      (case leadingDigits f of None \<Rightarrow> existingBeatmaps s | Some t \<Rightarrow> (existingBeatmaps s)(t \<mapsto> True))"
    by (simp add: indexEntry_def emit_def Let_def split: option.splits)
  show ?case
    using Cons.IH [of "indexEntry s f"] by (auto simp: ex List.map_filter_simps split: option.splits)
qed

lemma setSongsDirectory_fresh:
  "totalSongs (setSongsDirectory d (Some files) (new_DownloadManager cfg)) = length files"
  "indexedSongs (setSongsDirectory d (Some files) (new_DownloadManager cfg)) = length files"
  "emitted (setSongsDirectory d (Some files) (new_DownloadManager cfg)) =
     map (\<lambda>k. Indexing k (length files)) [1..<Suc (length files)]"
  "existingBeatmaps (setSongsDirectory d (Some files) (new_DownloadManager cfg)) tok =
     (if tok \<in> set (List.map_filter leadingDigits files) then Some True else None)"
  by (simp_all add: setSongsDirectory_def indexSongsFolder_def foldl_indexEntry_total
      foldl_indexEntry_indexed foldl_indexEntry_emitted foldl_indexEntry_existing
      new_DownloadManager_def)

lemma isBeatmapExisting_fresh:
  "isBeatmapExisting (setSongsDirectory d (Some files) (new_DownloadManager cfg)) i =
     (toString i \<in> set (List.map_filter leadingDigits files))"
  by (auto simp: isBeatmapExisting_def setSongsDirectory_fresh)

lemma map_filter_append: "List.map_filter f (xs @ ys) = List.map_filter f xs @ List.map_filter f ys"
  by (simp add: List.map_filter_def)

text \<open>
  Claim C6. On a new manager, indexing a directory sets \<open>totalSongs\<close> to the number of
  entries, puts in the index exactly the leading digit runs of the entries that have one
  (an entry without one is counted but not indexed), and emits \<^verbatim>\<open>indexing\<close> once after
  each entry, with the number of entries processed so far and the total. The entries
  "123 Foo - Bar", "456 Baz", "NoIdHere" give the index {"123", "456"} and the total 3.
\<close>

theorem indexSongsFolder_indexes_leading_ids:
  "totalSongs (setSongsDirectory d (Some files) (new_DownloadManager cfg)) = length files \<and>
   dom (existingBeatmaps (setSongsDirectory d (Some files) (new_DownloadManager cfg))) =
     set (List.map_filter leadingDigits files) \<and>
   emitted (setSongsDirectory d (Some files) (new_DownloadManager cfg)) =
     map (\<lambda>k. Indexing k (length files)) [1..<Suc (length files)] \<and>
   dom (existingBeatmaps (setSongsDirectory d
     (Some [''123 Foo - Bar'', ''456 Baz'', ''NoIdHere'']) (new_DownloadManager cfg))) =
     {''123'', ''456''} \<and>
   totalSongs (setSongsDirectory d
     (Some [''123 Foo - Bar'', ''456 Baz'', ''NoIdHere'']) (new_DownloadManager cfg)) = 3"
proof -
  have d: "dom (existingBeatmaps (setSongsDirectory d (Some fs) (new_DownloadManager cfg))) =
      set (List.map_filter leadingDigits fs)" for fs
    by (auto simp: dom_def setSongsDirectory_fresh)
  have e: "List.map_filter leadingDigits [''123 Foo - Bar'', ''456 Baz'', ''NoIdHere''] =
      [''123'', ''456'']"
    by code_simp
  show ?thesis
    unfolding d e by (simp add: setSongsDirectory_fresh(1,3))
qed

text \<open>
  Claim C10. The index holds the digit run of an entry as it is written and
  \<^verbatim>\<open>_isBeatmapExisting\<close> looks up the decimal rendering of the id. An entry whose digit
  run starts with a zero followed by more digits equals the rendering of no id, so with
  it in the directory an id is existing exactly when one of the other entries makes it
  so.
\<close>

theorem leading_zero_entry_is_not_existing:
  assumes "leadingDigits file = Some (CHR ''0'' # c # t)"
  shows "toString beatmapId \<noteq> CHR ''0'' # c # t \<and>
    isBeatmapExisting (setSongsDirectory d (Some (pre @ file # post)) (new_DownloadManager cfg))
      beatmapId =
    (toString beatmapId \<in> set (List.map_filter leadingDigits (pre @ post)))"
  using assms toString_no_leading_zero [of beatmapId c t]
  by (auto simp: isBeatmapExisting_fresh map_filter_append List.map_filter_simps)

text \<open>
  The entry "007 Song" and the id 7: the set is not existing, and \<^verbatim>\<open>bulkDownload\<close> puts
  it in the queue.
\<close>

theorem leading_zero_entry_witness:
  "leadingDigits ''007 Song'' = Some ''007'' \<and>
   toString 7 = ''7'' \<and>
   \<not> isBeatmapExisting (setSongsDirectory ''Songs'' (Some [''007 Song'']) (new_DownloadManager ex_cfg)) 7 \<and>
   waiting (queue (bulkDownload [\<lparr>id_bms = 7\<rparr>]
     (setSongsDirectory ''Songs'' (Some [''007 Song'']) (new_DownloadManager ex_cfg)))) =
     [Counted \<lparr>id_bms = 7\<rparr>]"
proof -
  have l: "leadingDigits ''007 Song'' = Some (CHR ''0'' # CHR ''0'' # ''7'')"
    by code_simp
  have ts: "toString 7 = ''7''"
    by code_simp
  have n: "\<not> isBeatmapExisting (setSongsDirectory ''Songs'' (Some [''007 Song'']) (new_DownloadManager ex_cfg)) 7"
    using leading_zero_entry_is_not_existing [OF l, of 7 "''Songs''" "[]" "[]" ex_cfg]
    by (simp add: List.map_filter_simps)
  have w: "waiting (queue (setSongsDirectory ''Songs'' (Some [''007 Song'']) (new_DownloadManager ex_cfg))) = []"
    by (simp add: setSongsDirectory_def indexSongsFolder_def indexEntry_def emit_def Let_def
        new_DownloadManager_def split: option.splits)
  show ?thesis
    using l ts n w by (simp add: bulkDownload_def visit_def queue_add_def isBeatmapExisting_def)
qed

subsection \<open>The filename resolver\<close>









subsection \<open>Attempts\<close>

lemma exec_append:
  "exec cfg (as @ bs) s = (case exec cfg as s of None \<Rightarrow> None | Some s1 \<Rightarrow> exec cfg bs s1)"
  by (induction as arbitrary: s) (auto split: option.splits)

lemma exec_single: "exec cfg [a] s = step cfg a s"
  by (simp split: option.splits)

lemma failedAttempt_cases:
  assumes "failedAttempt i acts"
  obtains out where "acts = [Respond i out]" "failsAtOnce out"
  | r where "acts = [Respond i (Resp r), BodyDone i False]" "streams r"
  using assms by (auto elim!: failedAttempt.elims split: outcome.splits)

lemma taskAt_setTask_same: "i < length (started (queue s)) \<Longrightarrow> taskAt (setTask i t s) i = t"
  by (simp add: taskAt_def setTask_def)

lemma taskAt_setTask_other: "j \<noteq> i \<Longrightarrow> taskAt (setTask i t s) j = taskAt s j"
  by (simp add: taskAt_def setTask_def)

lemma onCatch_retry:
  assumes "i < length (started (queue s))" "retries (taskAt s i) = Suc n"
  shows "taskAt (onCatch e i s) i = (taskAt s i)\<lparr>alt := (n = 0), retries := n, phase := AwaitFetch\<rparr>"
    and "emitted (onCatch e i s) = emitted s @ [Retrying (target (taskAt s i)), Downloading (target (taskAt s i))]"
    and "notDownloadedBeatMapSet (onCatch e i s) = notDownloadedBeatMapSet s"
    and "length (started (queue (onCatch e i s))) = length (started (queue s))"
  using assms by (simp_all add: onCatch_def Let_def taskAt_def setTask_def emit_def)

lemma onCatch_final:
  assumes "i < length (started (queue s))" "retries (taskAt s i) = 0"
  shows "taskAt (onCatch e i s) i = (taskAt s i)\<lparr>phase := Returned\<rparr>"
    and "emitted (onCatch e i s) = emitted s @ [Error (target (taskAt s i)) e]"
    and "notDownloadedBeatMapSet (onCatch e i s) = notDownloadedBeatMapSet s @ [target (taskAt s i)]"
    and "length (started (queue (onCatch e i s))) = length (started (queue s))"
  using assms by (simp_all add: onCatch_def Let_def taskAt_def setTask_def emit_def)

lemma onCatch_others:
  "j \<noteq> i \<Longrightarrow> taskAt (onCatch e i s) j = taskAt s j"
  "waiting (queue (onCatch e i s)) = waiting (queue s)"
  "processedCount (onCatch e i s) = processedCount s"
  by (simp_all add: onCatch_def Let_def taskAt_def setTask_def emit_def)

lemma endProbe_frame:
  "taskAt (endProbe cfg s) i = taskAt s i"
  "emitted (endProbe cfg s) = emitted s"
  "notDownloadedBeatMapSet (endProbe cfg s) = notDownloadedBeatMapSet s"
  "started (queue (endProbe cfg s)) = started (queue s)"
  "waiting (queue (endProbe cfg s)) = waiting (queue s)"
  "processedCount (endProbe cfg s) = processedCount s"
  by (simp_all add: endProbe_def taskAt_def)

lemma step_429:
  assumes "inPhase s i AwaitFetch" "status r = 429"
  shows "step cfg (Respond i (Resp r)) s =
     Some (setTask i ((taskAt s i)\<lparr>phase := Returned\<rparr>)
            (queue_add (Requeued (target (taskAt s i))) (emitRateLimited s)))"
  using assms
  by (simp add: step_def onResponse_def Let_def taskAt_def queue_add_def emitRateLimited_def
      onRateLimited_def emit_def)

lemma step_extraction_failed:
  assumes "inPhase s i AwaitFetch" "status r = 200" "getFilename r = Inl e"
  shows "step cfg (Respond i (Resp r)) s = Some (onCatch (Extraction e) i (endProbe cfg s))"
  using assms by (simp add: step_def onResponse_def Let_def)

text \<open>
  Claim C8. When the filename token of a response with status 200 cannot be
  percent-decoded, \<^verbatim>\<open>_getFilename\<close> raises \<^verbatim>\<open>FILE_NAME_EXTRACTION_FAILED\<close> instead of
  returning a name, and the step of the run still succeeds: the attempt goes to the
  catch block, which retries with one retry less while retries are left and otherwise
  records the target as failed; the waiting jobs and the other tasks are untouched.
\<close>

theorem filename_decode_failure_is_attempt_failure:
  assumes "headers_get (headers r) ''content-disposition'' = Some cd"
    and "filenameMatch cd = Some tok"
    and "decodeURIComponent tok = None"
    and "status r = 200"
    and "inPhase s i AwaitFetch"
  shows "getFilename r = Inl FILE_NAME_EXTRACTION_FAILED \<and>
    (\<exists>s'. step cfg (Respond i (Resp r)) s = Some s' \<and>
       (if retries (taskAt s i) \<noteq> 0 then
          retries (taskAt s' i) = retries (taskAt s i) - 1 \<and>
          phase (taskAt s' i) = AwaitFetch \<and>
          emitted s' = emitted s @ [Retrying (target (taskAt s i)), Downloading (target (taskAt s i))] \<and>
          notDownloadedBeatMapSet s' = notDownloadedBeatMapSet s
        else
          phase (taskAt s' i) = Returned \<and>
          emitted s' = emitted s @
            [Error (target (taskAt s i)) (Extraction FILE_NAME_EXTRACTION_FAILED)] \<and>
          notDownloadedBeatMapSet s' = notDownloadedBeatMapSet s @ [target (taskAt s i)]) \<and>
       waiting (queue s') = waiting (queue s) \<and>
       length (started (queue s')) = length (started (queue s)) \<and>
       (\<forall>j. j \<noteq> i \<longrightarrow> taskAt s' j = taskAt s j))"
proof -
  have g: "getFilename r = Inl FILE_NAME_EXTRACTION_FAILED"
    using assms(1-3) by (rule getFilename_decode_failure)
  let ?s1 = "endProbe cfg s"
  let ?s' = "onCatch (Extraction FILE_NAME_EXTRACTION_FAILED) i ?s1"
  have st: "step cfg (Respond i (Resp r)) s = Some ?s'"
    using assms(4,5) g by (simp add: step_extraction_failed)
  have len: "i < length (started (queue ?s1))"
    using assms(5) by (simp add: inPhase_def endProbe_frame)
  have body: "if retries (taskAt s i) \<noteq> 0 then
          retries (taskAt ?s' i) = retries (taskAt s i) - 1 \<and>
          phase (taskAt ?s' i) = AwaitFetch \<and>
          emitted ?s' = emitted s @ [Retrying (target (taskAt s i)), Downloading (target (taskAt s i))] \<and>
          notDownloadedBeatMapSet ?s' = notDownloadedBeatMapSet s
        else
          phase (taskAt ?s' i) = Returned \<and>
          emitted ?s' = emitted s @
            [Error (target (taskAt s i)) (Extraction FILE_NAME_EXTRACTION_FAILED)] \<and>
          notDownloadedBeatMapSet ?s' = notDownloadedBeatMapSet s @ [target (taskAt s i)]"
  proof (cases "retries (taskAt s i)")
    case 0
    then have "retries (taskAt ?s1 i) = 0" by (simp add: endProbe_frame)
    from onCatch_final [OF len this] 0 show ?thesis by (simp add: endProbe_frame)
  next
    case (Suc n)
    then have "retries (taskAt ?s1 i) = Suc n" by (simp add: endProbe_frame)
    from onCatch_retry [OF len this] Suc show ?thesis by (simp add: endProbe_frame)
  qed
  have rest: "waiting (queue ?s') = waiting (queue s)"
    "\<forall>j. j \<noteq> i \<longrightarrow> taskAt ?s' j = taskAt s j"
    by (simp_all add: onCatch_others endProbe_frame)
  have rest2: "length (started (queue ?s')) = length (started (queue s))"
    by (simp add: onCatch_def Let_def setTask_def emit_def endProbe_frame)
  from g st body rest rest2 show ?thesis by blast
qed

text \<open>
  The only set of a run is started and its response names the file \<^verbatim>\<open>%E0%A4%A\<close>,
  which breaks off inside a three-byte sequence: the attempt is retried with two retries
  left.
\<close>

theorem filename_decode_failure_witness:
  "headers_get (headers ex_undecodable) ''content-disposition'' =
     Some ''attachment; filename=%E0%A4%A'' \<and>
   filenameMatch ''attachment; filename=%E0%A4%A'' = Some ''%E0%A4%A'' \<and>
   decodeURIComponent ''%E0%A4%A'' = None \<and>
   status ex_undecodable = 200 \<and>
   map_option (\<lambda>s. (phase (taskAt s 0), retries (taskAt s 0))) (exec ex_cfg [Start] ex_run) =
     Some (AwaitFetch, 3) \<and>
   getFilename ex_undecodable = Inl FILE_NAME_EXTRACTION_FAILED \<and>
   map_option (\<lambda>s. (phase (taskAt s 0), retries (taskAt s 0), emitted s, notDownloadedBeatMapSet s))
     (exec ex_cfg [Start, Respond 0 (Resp ex_undecodable)] ex_run) =
     Some (AwaitFetch, 2, [Downloading ex_set, Retrying ex_set, Downloading ex_set], [])"
proof -
  have "case exec ex_cfg [Start] ex_run of
          None \<Rightarrow> False
        | Some s \<Rightarrow> inPhase s 0 AwaitFetch \<and> retries (taskAt s 0) = 3 \<and>
            phase (taskAt s 0) = AwaitFetch \<and> emitted s = [Downloading ex_set] \<and>
            notDownloadedBeatMapSet s = [] \<and> target (taskAt s 0) = ex_set"
    by code_simp
  then obtain s where run: "exec ex_cfg [Start] ex_run = Some s"
    and h5: "inPhase s 0 AwaitFetch"
    and r: "retries (taskAt s 0) = 3" "phase (taskAt s 0) = AwaitFetch"
    and e: "emitted s = [Downloading ex_set]" "notDownloadedBeatMapSet s = []"
      "target (taskAt s 0) = ex_set"
    by (auto split: option.splits)
  have h1: "headers_get (headers ex_undecodable) ''content-disposition'' =
      Some ''attachment; filename=%E0%A4%A''"
    by code_simp
  have h2: "filenameMatch ''attachment; filename=%E0%A4%A'' = Some ''%E0%A4%A''"
    by code_simp
  have h3: "decodeURIComponent ''%E0%A4%A'' = None"
    by code_simp
  have h4: "status ex_undecodable = 200"
    by code_simp
  from filename_decode_failure_is_attempt_failure [OF h1 h2 h3 h4 h5, of ex_cfg] r e
  obtain s' where g: "getFilename ex_undecodable = Inl FILE_NAME_EXTRACTION_FAILED"
    and st: "step ex_cfg (Respond 0 (Resp ex_undecodable)) s = Some s'"
    and p: "retries (taskAt s' 0) = 2" "phase (taskAt s' 0) = AwaitFetch"
      "emitted s' = [Downloading ex_set, Retrying ex_set, Downloading ex_set]"
      "notDownloadedBeatMapSet s' = []"
    by auto
  have "step ex_cfg Start ex_run = Some s"
    using run by (simp only: exec_single)
  then have "exec ex_cfg [Start, Respond 0 (Resp ex_undecodable)] ex_run = Some s'"
    using st by simp
  with run h1 h2 h3 h4 r g p show ?thesis by simp
qed

subsection \<open>Rate limiting and retries\<close>

text \<open>The definitions a concrete run unfolds to.\<close>

lemmas run_defs =
  ex_run_def ex_run2_def ex_cfg_def ex_set_def ex_resp_def bulkDownload_def visit_def
  isBeatmapExisting_def queue_add_def new_DownloadManager_def configuredConcurrency_def
  step_def startTask_def emit_def pending_def inPhase_def taskAt_def onResponse_def
  onCatch_def setTask_def getFilename_def getFilenameWith_def headers_get_def
  emitRateLimited_def
  onRateLimited_def countProcessed_def onIdle_def onBody_def endProbe_def Let_def
  defaultFileName_def countEvents_def isEnd_def isDownloaded_def isSkipped_def

lemma emitRateLimited_fields:
  "emitted (emitRateLimited s) = emitted s @ [RateLimited]"
  "isPaused (queue (emitRateLimited s))"
  "started (queue (emitRateLimited s)) = started (queue s)"
  "waiting (queue (emitRateLimited s)) = waiting (queue s)"
  "notDownloadedBeatMapSet (emitRateLimited s) = notDownloadedBeatMapSet s"
  "timers (emitRateLimited s) = (if isPaused (queue s) then timers s else timers s @ [60000])"
  "concurrency (queue (emitRateLimited s)) = (if isPaused (queue s) then concurrency (queue s) else 1)"
  "testRequest (emitRateLimited s) = (if isPaused (queue s) then testRequest s else True)"
  by (simp_all add: emitRateLimited_def onRateLimited_def emit_def)

lemma step_429_fields:
  assumes "inPhase s i AwaitFetch" "status r = 429"
  shows "\<exists>s'. step cfg (Respond i (Resp r)) s = Some s' \<and>
    waiting (queue s') = waiting (queue s) @ [Requeued (target (taskAt s i))] \<and>
    taskAt s' i = (taskAt s i)\<lparr>phase := Returned\<rparr> \<and>
    (\<forall>j. j \<noteq> i \<longrightarrow> taskAt s' j = taskAt s j) \<and>
    emitted s' = emitted s @ [RateLimited] \<and>
    notDownloadedBeatMapSet s' = notDownloadedBeatMapSet s \<and>
    isPaused (queue s') \<and>
    timers s' = (if isPaused (queue s) then timers s else timers s @ [60000]) \<and>
    concurrency (queue s') = (if isPaused (queue s) then concurrency (queue s) else 1) \<and>
    testRequest s' = (if isPaused (queue s) then testRequest s else True)"
  using assms
  by (simp add: step_429 inPhase_def setTask_def queue_add_def taskAt_def emitRateLimited_fields)

lemma step_TimerFire:
  "timers s = d # ds \<Longrightarrow>
   \<exists>s'. step cfg TimerFire s = Some s' \<and> \<not> isPaused (queue s') \<and> timers s' = ds"
  by (simp add: step_def)

text \<open>
  Claim C5. A response with status 429 emits \<^verbatim>\<open>rateLimited\<close>. When the queue is not
  paused, the listener pauses it, sets its concurrency to 1, sets \<open>testRequest\<close> and
  schedules one timer of 60000 milliseconds; when the queue is already paused, the
  timers, the concurrency and \<open>testRequest\<close> are left as they are. The timer, when it
  fires, resumes the queue whatever happened meanwhile.
\<close>

theorem rate_limit_pauses_once:
  assumes "inPhase s i AwaitFetch" and "status r = 429"
  shows "\<exists>s'. step cfg (Respond i (Resp r)) s = Some s' \<and>
    isPaused (queue s') \<and>
    (if isPaused (queue s)
     then timers s' = timers s \<and> concurrency (queue s') = concurrency (queue s) \<and>
       testRequest s' = testRequest s
     else timers s' = timers s @ [60000] \<and> concurrency (queue s') = 1 \<and> testRequest s') \<and>
    (\<forall>d ds. timers s' = d # ds \<longrightarrow>
       (\<exists>s''. step cfg TimerFire s' = Some s'' \<and> \<not> isPaused (queue s'') \<and> timers s'' = ds))"
proof -
  from step_429_fields [OF assms, of cfg] obtain s' where
    st: "step cfg (Respond i (Resp r)) s = Some s'" and p: "isPaused (queue s')"
    and t: "timers s' = (if isPaused (queue s) then timers s else timers s @ [60000])"
    and c: "concurrency (queue s') = (if isPaused (queue s) then concurrency (queue s) else 1)"
    and q: "testRequest s' = (if isPaused (queue s) then testRequest s else True)"
    by blast
  have "\<forall>d ds. timers s' = d # ds \<longrightarrow>
       (\<exists>s''. step cfg TimerFire s' = Some s'' \<and> \<not> isPaused (queue s'') \<and> timers s'' = ds)"
    using step_TimerFire by blast
  with st p t c q show ?thesis by auto
qed

text \<open>
  Two sets are in flight and both are rate-limited: the first signal pauses the queue
  and schedules the timer, the second changes nothing, the timer resumes the queue.
\<close>

theorem rate_limit_pauses_once_witness:
  "status (ex_resp 429) = 429 \<and>
   map_option (\<lambda>s. (isPaused (queue s), concurrency (queue s), testRequest s, timers s))
     (exec ex_cfg [Start, Start] ex_run2) = Some (False, 3, False, []) \<and>
   map_option (\<lambda>s. (isPaused (queue s), concurrency (queue s), testRequest s, timers s))
     (exec ex_cfg [Start, Start, Respond 0 (Resp (ex_resp 429))] ex_run2) =
     Some (True, 1, True, [60000]) \<and>
   map_option (\<lambda>s. (isPaused (queue s), concurrency (queue s), testRequest s, timers s))
     (exec ex_cfg [Start, Start, Respond 0 (Resp (ex_resp 429)), Respond 1 (Resp (ex_resp 429))]
        ex_run2) = Some (True, 1, True, [60000]) \<and>
   map_option (\<lambda>s. (isPaused (queue s), timers s))
     (exec ex_cfg [Start, Start, Respond 0 (Resp (ex_resp 429)), Respond 1 (Resp (ex_resp 429)),
        TimerFire] ex_run2) = Some (False, [])"
proof -
  let ?r = "Respond 0 (Resp (ex_resp 429))"
  let ?r1 = "Respond 1 (Resp (ex_resp 429))"
  have "case exec ex_cfg [Start, Start] ex_run2 of
          None \<Rightarrow> False
        | Some s \<Rightarrow> inPhase s 0 AwaitFetch \<and> \<not> isPaused (queue s) \<and>
            concurrency (queue s) = 3 \<and> \<not> testRequest s \<and> timers s = []"
    by (simp add: run_defs)
  then obtain s where run: "exec ex_cfg [Start, Start] ex_run2 = Some s"
    and h: "inPhase s 0 AwaitFetch"
    and e: "\<not> isPaused (queue s)" "concurrency (queue s) = 3" "\<not> testRequest s" "timers s = []"
    by (auto split: option.splits)
  have st: "status (ex_resp 429) = 429"
    by (simp add: ex_resp_def)
  from rate_limit_pauses_once [OF h st, of ex_cfg] e obtain s1 where
    x1: "step ex_cfg ?r s = Some s1"
    and p1: "isPaused (queue s1)" "timers s1 = [60000]" "concurrency (queue s1) = 1"
      "testRequest s1"
    by auto
  have b1: "exec ex_cfg ([Start, Start] @ [?r]) ex_run2 = Some s1"
    by (simp only: exec_append run option.case exec_single x1)
  have "case exec ex_cfg ([Start, Start] @ [?r]) ex_run2 of
          None \<Rightarrow> False | Some s \<Rightarrow> inPhase s 1 AwaitFetch"
    by (simp add: run_defs)
  with b1 have h1: "inPhase s1 1 AwaitFetch"
    by simp
  from rate_limit_pauses_once [OF h1 st, of ex_cfg] p1 obtain s2 where
    x2: "step ex_cfg ?r1 s1 = Some s2"
    and p2: "isPaused (queue s2)" "timers s2 = [60000]" "concurrency (queue s2) = 1"
      "testRequest s2"
    and fire: "\<forall>d ds. timers s2 = d # ds \<longrightarrow>
       (\<exists>s''. step ex_cfg TimerFire s2 = Some s'' \<and> \<not> isPaused (queue s'') \<and> timers s'' = ds)"
    by auto
  from fire p2(2) obtain s3 where
    x3: "step ex_cfg TimerFire s2 = Some s3" and p3: "\<not> isPaused (queue s3)" "timers s3 = []"
    by auto
  have b2: "exec ex_cfg ([Start, Start] @ [?r] @ [?r1]) ex_run2 = Some s2"
    by (simp only: exec_append run option.case exec_single x1 x2)
  have b3: "exec ex_cfg ([Start, Start] @ [?r] @ [?r1] @ [TimerFire]) ex_run2 = Some s3"
    by (simp only: exec_append run option.case exec_single x1 x2 x3)
  from b1 b2 b3 have c:
    "exec ex_cfg [Start, Start, ?r] ex_run2 = Some s1"
    "exec ex_cfg [Start, Start, ?r, ?r1] ex_run2 = Some s2"
    "exec ex_cfg [Start, Start, ?r, ?r1, TimerFire] ex_run2 = Some s3"
    by simp_all
  show ?thesis
    unfolding c run using st e p1 p2 p3 by simp
qed

text \<open>
  Claim C3, as amended. A response with status 429 makes the attempt return without
  going through the catch block: \<^verbatim>\<open>rateLimited\<close> is the only event, the failed list
  is unchanged, and the target joins the end of the queue as a job that starts with the
  default options (three retries, the primary mirror), whatever the options of the
  rate-limited attempt were.
\<close>

theorem rate_limited_attempt_is_requeued_fresh:
  assumes "inPhase s i AwaitFetch" and "status r = 429"
  shows "\<exists>s'. step cfg (Respond i (Resp r)) s = Some s' \<and>
    waiting (queue s') = waiting (queue s) @ [Requeued (target (taskAt s i))] \<and>
    startTask (Requeued (target (taskAt s i))) =
      \<lparr>target = target (taskAt s i), retries = 3, alt = False, counts = False,
       phase = AwaitFetch\<rparr> \<and>
    taskAt s' i = (taskAt s i)\<lparr>phase := Returned\<rparr> \<and>
    emitted s' = emitted s @ [RateLimited] \<and>
    notDownloadedBeatMapSet s' = notDownloadedBeatMapSet s"
  using step_429_fields [OF assms, of cfg] by (auto simp: startTask_def)

text \<open>
  The only set of a run is rate-limited on its first attempt.
\<close>

theorem rate_limited_attempt_witness:
  "status (ex_resp 429) = 429 \<and>
   map_option (\<lambda>s. (phase (taskAt s 0), waiting (queue s), emitted s))
     (exec ex_cfg [Start] ex_run) = Some (AwaitFetch, [], [Downloading ex_set]) \<and>
   map_option (\<lambda>s. (phase (taskAt s 0), waiting (queue s), emitted s, notDownloadedBeatMapSet s))
     (exec ex_cfg [Start, Respond 0 (Resp (ex_resp 429))] ex_run) =
     Some (Returned, [Requeued ex_set], [Downloading ex_set, RateLimited], [])"
proof -
  have "case exec ex_cfg [Start] ex_run of
          None \<Rightarrow> False
        | Some s \<Rightarrow> inPhase s 0 AwaitFetch \<and> phase (taskAt s 0) = AwaitFetch \<and>
            waiting (queue s) = [] \<and> emitted s = [Downloading ex_set] \<and>
            notDownloadedBeatMapSet s = [] \<and> target (taskAt s 0) = ex_set"
    by (simp add: run_defs)
  then obtain s where run: "exec ex_cfg [Start] ex_run = Some s"
    and h: "inPhase s 0 AwaitFetch"
    and e: "phase (taskAt s 0) = AwaitFetch" "waiting (queue s) = []"
      "emitted s = [Downloading ex_set]" "notDownloadedBeatMapSet s = []"
      "target (taskAt s 0) = ex_set"
    by (auto split: option.splits)
  have st: "status (ex_resp 429) = 429"
    by (simp add: ex_resp_def)
  from rate_limited_attempt_is_requeued_fresh [OF h st, of ex_cfg] obtain s' where
    x: "step ex_cfg (Respond 0 (Resp (ex_resp 429))) s = Some s'"
    and p: "waiting (queue s') = [Requeued ex_set]" "phase (taskAt s' 0) = Returned"
      "emitted s' = [Downloading ex_set, RateLimited]" "notDownloadedBeatMapSet s' = []"
    by (auto simp: e)
  have "step ex_cfg Start ex_run = Some s"
    using run by (simp only: exec_single)
  then have b: "exec ex_cfg [Start, Respond 0 (Resp (ex_resp 429))] ex_run = Some s'"
    using x by simp
  show ?thesis
    unfolding b using st run e p by simp
qed

text \<open>
  Claim C3 as stated fails: an attempt with no retry left on the alternative mirror
  (after three answers 500) is rate-limited, and the job that replaces it starts with
  three retries on the primary mirror.
\<close>

theorem rate_limited_attempt_counterexample:
  "map_option (\<lambda>s. map (\<lambda>t. (retries t, alt t, phase t)) (started (queue s)))
     (exec ex_cfg [Start, Respond 0 (Resp (ex_resp 500)), Respond 0 (Resp (ex_resp 500)),
        Respond 0 (Resp (ex_resp 500))] ex_run) = Some [(0, True, AwaitFetch)] \<and>
   map_option (\<lambda>s. map (\<lambda>t. (retries t, alt t, phase t)) (started (queue s)))
     (exec ex_cfg [Start, Respond 0 (Resp (ex_resp 500)), Respond 0 (Resp (ex_resp 500)),
        Respond 0 (Resp (ex_resp 500)), Respond 0 (Resp (ex_resp 429)), Settle 0, Next 0,
        TimerFire, Start] ex_run) = Some [(0, True, Finished), (3, False, AwaitFetch)]"
  by (simp add: run_defs)

lemma failsAtOnce_reaches_catch:
  assumes "failsAtOnce out" "inPhase s i AwaitFetch"
  shows "\<exists>e. step cfg (Respond i out) s = Some (onCatch e i s) \<or>
             step cfg (Respond i out) s = Some (onCatch e i (endProbe cfg s))"
  using assms
  by (cases out)
     (auto simp: failsAtOnce_def streams_def step_def onResponse_def Let_def split: sum.splits)

lemma failedAttempt_reaches_catch:
  assumes "failedAttempt i acts" "inPhase s i AwaitFetch"
  shows "\<exists>e s1. exec cfg acts s = Some (onCatch e i s1) \<and> i < length (started (queue s1)) \<and>
    retries (taskAt s1 i) = retries (taskAt s i) \<and> target (taskAt s1 i) = target (taskAt s i) \<and>
    emitted s1 = emitted s \<and> notDownloadedBeatMapSet s1 = notDownloadedBeatMapSet s"
  using assms(1)
proof (cases rule: failedAttempt_cases)
  case (1 out)
  from failsAtOnce_reaches_catch [OF 1(2) assms(2), of cfg] obtain e where
    "step cfg (Respond i out) s = Some (onCatch e i s) \<or>
     step cfg (Respond i out) s = Some (onCatch e i (endProbe cfg s))" by blast
  then show ?thesis
  proof
    assume "step cfg (Respond i out) s = Some (onCatch e i s)"
    then have "exec cfg acts s = Some (onCatch e i s)"
      using 1(1) by (simp add: exec_single)
    then show ?thesis
      using assms(2) by (intro exI [of _ e] exI [of _ s]) (simp add: inPhase_def)
  next
    assume "step cfg (Respond i out) s = Some (onCatch e i (endProbe cfg s))"
    then have "exec cfg acts s = Some (onCatch e i (endProbe cfg s))"
      using 1(1) by (simp add: exec_single)
    then show ?thesis
      using assms(2)
      by (intro exI [of _ e] exI [of _ "endProbe cfg s"]) (simp add: inPhase_def endProbe_frame)
  qed
next
  case (2 r)
  let ?s1 = "setTask i ((taskAt (endProbe cfg s) i)\<lparr>phase := AwaitBody\<rparr>) (endProbe cfg s)"
  have a: "step cfg (Respond i (Resp r)) s = Some ?s1"
    using 2(2) assms(2)
    by (auto simp: streams_def step_def onResponse_def Let_def split: sum.splits)
  have len: "i < length (started (queue ?s1))"
    using assms(2) by (simp add: inPhase_def setTask_def endProbe_frame)
  have t: "taskAt ?s1 i = (taskAt s i)\<lparr>phase := AwaitBody\<rparr>"
    using assms(2) by (simp add: inPhase_def taskAt_setTask_same endProbe_frame)
  have b: "step cfg (BodyDone i False) ?s1 = Some (onCatch Thrown i ?s1)"
    using len t by (simp add: step_def inPhase_def onBody_def)
  have c: "exec cfg acts s = Some (onCatch Thrown i ?s1)"
    using a b 2(1) by simp
  have d: "emitted ?s1 = emitted s" "notDownloadedBeatMapSet ?s1 = notDownloadedBeatMapSet s"
    by (simp_all add: setTask_def endProbe_frame endProbe_def)
  have "retries (taskAt ?s1 i) = retries (taskAt s i)" "target (taskAt ?s1 i) = target (taskAt s i)"
    unfolding t by simp_all
  with c d len show ?thesis
    by (intro exI [of _ Thrown] exI [of _ ?s1]) simp
qed

lemma failed_attempt_retry:
  assumes "failedAttempt i acts" "inPhase s i AwaitFetch" "retries (taskAt s i) = Suc n"
  shows "\<exists>s'. exec cfg acts s = Some s' \<and> inPhase s' i AwaitFetch \<and>
    retries (taskAt s' i) = n \<and> alt (taskAt s' i) = (n = 0) \<and>
    target (taskAt s' i) = target (taskAt s i) \<and>
    emitted s' = emitted s @ [Retrying (target (taskAt s i)), Downloading (target (taskAt s i))] \<and>
    notDownloadedBeatMapSet s' = notDownloadedBeatMapSet s"
proof -
  from failedAttempt_reaches_catch [OF assms(1,2), of cfg] obtain e s1 where
    ex: "exec cfg acts s = Some (onCatch e i s1)" and len: "i < length (started (queue s1))"
    and r: "retries (taskAt s1 i) = retries (taskAt s i)"
    and t: "target (taskAt s1 i) = target (taskAt s i)"
    and em: "emitted s1 = emitted s" "notDownloadedBeatMapSet s1 = notDownloadedBeatMapSet s"
    by blast
  from r assms(3) have r1: "retries (taskAt s1 i) = Suc n" by simp
  from onCatch_retry [OF len r1, of e] ex t em len show ?thesis
    by (simp add: inPhase_def)
qed

lemma failed_attempt_final:
  assumes "failedAttempt i acts" "inPhase s i AwaitFetch" "retries (taskAt s i) = 0"
  shows "\<exists>s' e. exec cfg acts s = Some s' \<and> inPhase s' i Returned \<and>
    emitted s' = emitted s @ [Error (target (taskAt s i)) e] \<and>
    notDownloadedBeatMapSet s' = notDownloadedBeatMapSet s @ [target (taskAt s i)]"
proof -
  from failedAttempt_reaches_catch [OF assms(1,2), of cfg] obtain e s1 where
    ex: "exec cfg acts s = Some (onCatch e i s1)" and len: "i < length (started (queue s1))"
    and r: "retries (taskAt s1 i) = retries (taskAt s i)"
    and t: "target (taskAt s1 i) = target (taskAt s i)"
    and em: "emitted s1 = emitted s" "notDownloadedBeatMapSet s1 = notDownloadedBeatMapSet s"
    by blast
  from r assms(3) have r1: "retries (taskAt s1 i) = 0" by simp
  from onCatch_final [OF len r1, of e] ex t em len show ?thesis
    by (simp add: inPhase_def)
qed

text \<open>
  Claim C4. A task started with the default options whose attempts all fail makes four
  attempts: the retries left go 3, 2, 1, 0, only the fourth fetch is given the
  alternative mirror, each of the first three failures emits \<^verbatim>\<open>retrying\<close> (and the
  next attempt \<^verbatim>\<open>downloading\<close>), the fourth emits \<^verbatim>\<open>error\<close> once, records the
  target in the failed list and returns.
\<close>

theorem four_failed_attempts_then_failed:
  assumes "inPhase s i AwaitFetch" and "retries (taskAt s i) = 3" and "\<not> alt (taskAt s i)"
    and "failedAttempt i a1" and "failedAttempt i a2"
    and "failedAttempt i a3" and "failedAttempt i a4"
  shows "\<exists>s1 s2 s3 s4 e.
    exec cfg a1 s = Some s1 \<and> exec cfg a2 s1 = Some s2 \<and>
    exec cfg a3 s2 = Some s3 \<and> exec cfg a4 s3 = Some s4 \<and>
    exec cfg (a1 @ a2 @ a3 @ a4) s = Some s4 \<and>
    inPhase s1 i AwaitFetch \<and> retries (taskAt s1 i) = 2 \<and> \<not> alt (taskAt s1 i) \<and>
    inPhase s2 i AwaitFetch \<and> retries (taskAt s2 i) = 1 \<and> \<not> alt (taskAt s2 i) \<and>
    inPhase s3 i AwaitFetch \<and> retries (taskAt s3 i) = 0 \<and> alt (taskAt s3 i) \<and>
    inPhase s4 i Returned \<and>
    emitted s4 = emitted s @
      [Retrying (target (taskAt s i)), Downloading (target (taskAt s i)),
       Retrying (target (taskAt s i)), Downloading (target (taskAt s i)),
       Retrying (target (taskAt s i)), Downloading (target (taskAt s i)),
       Error (target (taskAt s i)) e] \<and>
    notDownloadedBeatMapSet s4 = notDownloadedBeatMapSet s @ [target (taskAt s i)]"
proof -
  let ?t = "target (taskAt s i)"
  have r0: "retries (taskAt s i) = Suc 2" using assms(2) by simp
  from failed_attempt_retry [OF assms(4) assms(1) r0, of cfg] obtain s1 where
    e1: "exec cfg a1 s = Some s1" and p1: "inPhase s1 i AwaitFetch"
    and r1: "retries (taskAt s1 i) = 2" and l1: "\<not> alt (taskAt s1 i)"
    and t1: "target (taskAt s1 i) = ?t"
    and m1: "emitted s1 = emitted s @ [Retrying ?t, Downloading ?t]"
    and n1: "notDownloadedBeatMapSet s1 = notDownloadedBeatMapSet s"
    by auto
  have r1': "retries (taskAt s1 i) = Suc 1" using r1 by simp
  from failed_attempt_retry [OF assms(5) p1 r1', of cfg] obtain s2 where
    e2: "exec cfg a2 s1 = Some s2" and p2: "inPhase s2 i AwaitFetch"
    and r2: "retries (taskAt s2 i) = 1" and l2: "\<not> alt (taskAt s2 i)"
    and t2: "target (taskAt s2 i) = ?t"
    and m2: "emitted s2 = emitted s @ [Retrying ?t, Downloading ?t, Retrying ?t, Downloading ?t]"
    and n2: "notDownloadedBeatMapSet s2 = notDownloadedBeatMapSet s"
    using t1 m1 n1 by auto
  have r2': "retries (taskAt s2 i) = Suc 0" using r2 by simp
  from failed_attempt_retry [OF assms(6) p2 r2', of cfg] obtain s3 where
    e3: "exec cfg a3 s2 = Some s3" and p3: "inPhase s3 i AwaitFetch"
    and r3: "retries (taskAt s3 i) = 0" and l3: "alt (taskAt s3 i)"
    and t3: "target (taskAt s3 i) = ?t"
    and m3: "emitted s3 = emitted s @ [Retrying ?t, Downloading ?t, Retrying ?t, Downloading ?t,
        Retrying ?t, Downloading ?t]"
    and n3: "notDownloadedBeatMapSet s3 = notDownloadedBeatMapSet s"
    using t2 m2 n2 by auto
  from failed_attempt_final [OF assms(7) p3 r3, of cfg] obtain s4 e where
    e4: "exec cfg a4 s3 = Some s4" and p4: "inPhase s4 i Returned"
    and m4: "emitted s4 = emitted s @ [Retrying ?t, Downloading ?t, Retrying ?t, Downloading ?t,
        Retrying ?t, Downloading ?t, Error ?t e]"
    and n4: "notDownloadedBeatMapSet s4 = notDownloadedBeatMapSet s @ [?t]"
    using t3 m3 n3 by auto
  have all: "exec cfg (a1 @ a2 @ a3 @ a4) s = Some s4"
    by (simp add: exec_append e1 e2 e3 e4)
  from e1 e2 e3 e4 all p1 r1 l1 p2 r2 l2 p3 r3 l3 p4 m4 n4 show ?thesis
    by blast
qed

text \<open>
  The only set of a run answers 500 four times.
\<close>

theorem four_failed_attempts_witness:
  "failedAttempt 0 [Respond 0 (Resp (ex_resp 500))] \<and>
   map_option (\<lambda>s. (phase (taskAt s 0), retries (taskAt s 0), alt (taskAt s 0)))
     (exec ex_cfg [Start] ex_run) = Some (AwaitFetch, 3, False) \<and>
   map_option (\<lambda>s. (alt (taskAt s 0), retries (taskAt s 0)))
     (exec ex_cfg [Start, Respond 0 (Resp (ex_resp 500)), Respond 0 (Resp (ex_resp 500)),
        Respond 0 (Resp (ex_resp 500))] ex_run) = Some (True, 0) \<and>
   map_option (\<lambda>s. (phase (taskAt s 0), emitted s, notDownloadedBeatMapSet s))
     (exec ex_cfg [Start, Respond 0 (Resp (ex_resp 500)), Respond 0 (Resp (ex_resp 500)),
        Respond 0 (Resp (ex_resp 500)), Respond 0 (Resp (ex_resp 500))] ex_run) =
     Some (Returned,
       [Downloading ex_set, Retrying ex_set, Downloading ex_set, Retrying ex_set,
        Downloading ex_set, Retrying ex_set, Downloading ex_set,
        Error ex_set (StatusCode 500)],
       [ex_set])"
proof -
  let ?a = "[Respond 0 (Resp (ex_resp 500))]"
  have "case exec ex_cfg [Start] ex_run of
          None \<Rightarrow> False
        | Some s \<Rightarrow> inPhase s 0 AwaitFetch \<and> retries (taskAt s 0) = 3 \<and>
            \<not> alt (taskAt s 0) \<and> phase (taskAt s 0) = AwaitFetch \<and>
            emitted s = [Downloading ex_set] \<and>
            notDownloadedBeatMapSet s = [] \<and> target (taskAt s 0) = ex_set"
    by code_simp
  then obtain s where run: "exec ex_cfg [Start] ex_run = Some s"
    and h: "inPhase s 0 AwaitFetch" "retries (taskAt s 0) = 3" "\<not> alt (taskAt s 0)"
    and e: "phase (taskAt s 0) = AwaitFetch" "emitted s = [Downloading ex_set]"
      "notDownloadedBeatMapSet s = []" "target (taskAt s 0) = ex_set"
    by (auto split: option.splits)
  have f: "failedAttempt 0 ?a"
    by code_simp
  from four_failed_attempts_then_failed [OF h f f f f, of ex_cfg]
  obtain s1 s2 s3 s4 c where
    x: "exec ex_cfg ?a s = Some s1" "exec ex_cfg ?a s1 = Some s2" "exec ex_cfg ?a s2 = Some s3"
      "exec ex_cfg ?a s3 = Some s4"
    and p3: "retries (taskAt s3 0) = 0" "alt (taskAt s3 0)"
    and p4: "inPhase s4 0 Returned"
      "emitted s4 =
        [Downloading ex_set, Retrying ex_set, Downloading ex_set, Retrying ex_set,
         Downloading ex_set, Retrying ex_set, Downloading ex_set, Error ex_set c]"
      "notDownloadedBeatMapSet s4 = [ex_set]"
    by (auto simp: e)
  have a3: "exec ex_cfg ([Start] @ ?a @ ?a @ ?a) ex_run = Some s3"
    by (simp only: exec_append run x option.case)
  have a4: "exec ex_cfg ([Start] @ ?a @ ?a @ ?a @ ?a) ex_run = Some s4"
    by (simp only: exec_append run x option.case)
  have "case exec ex_cfg ([Start] @ ?a @ ?a @ ?a @ ?a) ex_run of
          None \<Rightarrow> False
        | Some s \<Rightarrow> last (emitted s) = Error ex_set (StatusCode 500)"
    by code_simp
  with a4 p4(2) have c: "c = StatusCode 500"
    by simp
  from a3 a4 have b3: "exec ex_cfg [Start, Respond 0 (Resp (ex_resp 500)),
      Respond 0 (Resp (ex_resp 500)), Respond 0 (Resp (ex_resp 500))] ex_run = Some s3"
    and b4: "exec ex_cfg [Start, Respond 0 (Resp (ex_resp 500)),
      Respond 0 (Resp (ex_resp 500)), Respond 0 (Resp (ex_resp 500)),
      Respond 0 (Resp (ex_resp 500))] ex_run = Some s4"
    by simp_all
  show ?thesis
    unfolding b3 b4 using f run h e p3 p4 c by (simp add: inPhase_def)
qed

subsection \<open>What holds throughout a run\<close>

lemma exec_invariant:
  assumes "exec cfg acts s = Some s'" and "P s"
    and "\<And>a s s'. P s \<Longrightarrow> step cfg a s = Some s' \<Longrightarrow> P s'"
  shows "P s'"
  using assms(1,2)
proof (induction acts arbitrary: s)
  case Nil
  then show ?case by simp
next
  case (Cons a acts)
  then obtain s1 where a: "step cfg a s = Some s1" and b: "exec cfg acts s1 = Some s'"
    by (auto split: option.splits)
  from assms(3) [OF Cons.prems(2) a] have "P s1" .
  from Cons.IH [OF b this] show ?case .
qed


lemma tally_emit:
  "\<not> isDownloaded e \<Longrightarrow> \<not> isSkipped e \<Longrightarrow> tally (emit e s) = tally s"
  by (simp add: tally_def emit_def countEvents_def)






lemma filter_update_len:
  "i < length xs \<Longrightarrow>
   length (filter P (xs[i := y])) + (if P (xs ! i) then 1 else 0) =
   length (filter P xs) + (if P y then 1 else 0)"
proof (induction xs arbitrary: i)
  case Nil
  then show ?case by simp
next
  case (Cons x xs)
  show ?case
  proof (cases i)
    case 0
    then show ?thesis by simp
  next
    case (Suc k)
    with Cons.prems have "k < length xs" by simp
    from Cons.IH [OF this] Suc show ?thesis by simp
  qed
qed

lemma filter_update_same:
  "i < length xs \<Longrightarrow> P y = P (xs ! i) \<Longrightarrow>
   length (filter P (xs[i := y])) = length (filter P xs)"
  using filter_update_len [of i xs P y] by (simp split: if_splits)

lemma filter_update_drop:
  "i < length xs \<Longrightarrow> P (xs ! i) \<Longrightarrow> \<not> P y \<Longrightarrow>
   Suc (length (filter P (xs[i := y]))) = length (filter P xs)"
  using filter_update_len [of i xs P y] by simp

lemma filter_pos: "i < length xs \<Longrightarrow> P (xs ! i) \<Longrightarrow> 0 < length (filter P xs)"
  by (metis filter_empty_conv length_greater_0_conv nth_mem)

text \<open>The projections the invariant reads.\<close>

lemma setTask_fields:
  "processedCount (setTask i t s) = processedCount s"
  "totalCount (setTask i t s) = totalCount s"
  "emitted (setTask i t s) = emitted s"
  "waiting (queue (setTask i t s)) = waiting (queue s)"
  "started (queue (setTask i t s)) = (started (queue s))[i := t]"
  by (simp_all add: setTask_def)

lemma countEvents_setTask: "countEvents P (setTask i t s) = countEvents P s"
  by (simp add: countEvents_def setTask_def)

lemma unsettled_setTask_same:
  "i < length (started (queue s)) \<Longrightarrow> owes t = owes (taskAt s i) \<Longrightarrow>
   unsettled (setTask i t s) = unsettled s"
  by (simp add: unsettled_def setTask_fields taskAt_def filter_update_same)

lemma pending_setTask_same:
  "i < length (started (queue s)) \<Longrightarrow> (phase t \<noteq> Finished) = (phase (taskAt s i) \<noteq> Finished) \<Longrightarrow>
   pending (queue (setTask i t s)) = pending (queue s)"
  by (simp add: pending_def setTask_fields taskAt_def filter_update_same)

lemma pending_pos:
  "i < length (started (queue s)) \<Longrightarrow> phase (taskAt s i) \<noteq> Finished \<Longrightarrow> 0 < pending (queue s)"
  unfolding pending_def taskAt_def by (rule filter_pos)

text \<open>A step that moves task i between phases before Settled.\<close>

lemma runInvariant_move:
  assumes inv: "runInvariant s"
    and i: "i < length (started (queue s))"
    and ph: "phase (taskAt s i) \<noteq> Settled" "phase (taskAt s i) \<noteq> Finished"
    and pc: "processedCount s' = processedCount s" "totalCount s' = totalCount s"
    and ev: "countEvents isEnd s' = countEvents isEnd s"
    and st: "started (queue s') = (started (queue s))[i := t]"
    and t: "counts t = counts (taskAt s i)" "phase t \<noteq> Settled" "phase t \<noteq> Finished"
    and w: "filter isCounted (waiting (queue s')) = filter isCounted (waiting (queue s))"
  shows "runInvariant s'"
proof -
  have o: "owes t = owes (taskAt s i)"
    using ph t by (simp add: owes_def)
  have u: "unsettled s' = unsettled s"
    using i o by (simp add: unsettled_def st w taskAt_def filter_update_same)
  have p: "pending (queue s') = pending (queue s)"
    using i ph t by (simp add: pending_def st taskAt_def filter_update_same)
  have p0: "0 < pending (queue s)"
    using i ph by (simp add: pending_pos)
  have ne: "started (queue s) \<noteq> []" "started (queue s') \<noteq> []"
    using i by (auto simp: st)
  show ?thesis
    using inv p0 by (simp add: runInvariant_def pc ev u p)
qed

lemma advancesI:
  assumes "started (queue s') = (started (queue s))[i := t]"
    and "counts t = counts (taskAt s i)" "phase t \<noteq> Settled" "phase t \<noteq> Finished"
    and "processedCount s' = processedCount s" "totalCount s' = totalCount s"
    and "countEvents isEnd s' = countEvents isEnd s"
    and "filter isCounted (waiting (queue s')) = filter isCounted (waiting (queue s))"
  shows "advances i s s'"
  unfolding advances_def using assms by blast

lemma advances_onCatch: "advances i s (onCatch e i s)"
proof (cases "retries (taskAt s i) = 0")
  case True
  then show ?thesis
    by (intro advancesI [where t = "(taskAt s i)\<lparr>phase := Returned\<rparr>"])
       (simp_all add: onCatch_def Let_def setTask_def emit_def countEvents_def isEnd_def)
next
  case False
  then show ?thesis
    by (intro advancesI [where t = "(taskAt s i)\<lparr>alt := (retries (taskAt s i) = 1),
          retries := retries (taskAt s i) - 1, phase := AwaitFetch\<rparr>"])
       (simp_all add: onCatch_def Let_def setTask_def emit_def countEvents_def isEnd_def)
qed

lemma endProbe_move:
  "started (queue (endProbe cfg s)) = started (queue s)"
  "processedCount (endProbe cfg s) = processedCount s"
  "totalCount (endProbe cfg s) = totalCount s"
  "countEvents isEnd (endProbe cfg s) = countEvents isEnd s"
  "waiting (queue (endProbe cfg s)) = waiting (queue s)"
  "taskAt (endProbe cfg s) i = taskAt s i"
  by (simp_all add: endProbe_def countEvents_def taskAt_def)

lemma advances_endProbe: "advances i (endProbe cfg s) s' \<Longrightarrow> advances i s s'"
  by (simp add: advances_def endProbe_move)

lemma advances_429:
  "advances i s (setTask i ((taskAt s i)\<lparr>phase := Returned\<rparr>)
     (queue_add (Requeued b) (emitRateLimited s)))"
  by (intro advancesI [where t = "(taskAt s i)\<lparr>phase := Returned\<rparr>"])
     (simp_all add: setTask_def queue_add_def emitRateLimited_def onRateLimited_def emit_def
        countEvents_def isEnd_def isCounted_def)

lemma advances_body:
  "advances i s (setTask i ((taskAt s i)\<lparr>phase := AwaitBody\<rparr>) s)"
  by (intro advancesI [where t = "(taskAt s i)\<lparr>phase := AwaitBody\<rparr>"])
     (simp_all add: setTask_def countEvents_def)

lemma advances_onResponse: "advances i s (onResponse cfg out i s)"
proof (cases out)
  case Rejects
  then show ?thesis by (simp add: onResponse_def advances_onCatch)
next
  case (Resp r)
  show ?thesis
  proof (cases "status r = 429")
    case True
    have "taskAt (queue_add (Requeued (target (taskAt s i))) (emitRateLimited s)) i = taskAt s i"
      by (simp add: taskAt_def queue_add_def emitRateLimited_def onRateLimited_def emit_def)
    with True Resp show ?thesis
      by (simp add: onResponse_def Let_def advances_429)
  next
    case False
    show ?thesis
    proof (cases "status r = 200")
      case n: False
      with False Resp show ?thesis by (simp add: onResponse_def advances_onCatch)
    next
      case True
      have a: "advances i s (onCatch e i (endProbe cfg s))" for e
        by (rule advances_endProbe) (rule advances_onCatch)
      have b: "advances i s (setTask i ((taskAt (endProbe cfg s) i)\<lparr>phase := AwaitBody\<rparr>)
          (endProbe cfg s))"
        by (rule advances_endProbe) (rule advances_body)
      from True Resp a b show ?thesis
        by (simp add: onResponse_def Let_def split: sum.splits)
    qed
  qed
qed

lemma advances_onBody: "advances i s (onBody ok i s)"
proof (cases ok)
  case True
  then show ?thesis
    by (intro advancesI [where t = "(taskAt s i)\<lparr>phase := Returned\<rparr>"])
       (simp_all add: onBody_def setTask_def emit_def countEvents_def isEnd_def taskAt_def)
next
  case False
  then show ?thesis by (simp add: onBody_def advances_onCatch)
qed

lemma runInvariant_advances:
  assumes "runInvariant s" "i < length (started (queue s))"
    and "phase (taskAt s i) \<noteq> Settled" "phase (taskAt s i) \<noteq> Finished"
    and "advances i s s'"
  shows "runInvariant s'"
proof -
  from assms(5) obtain t where
    t: "started (queue s') = (started (queue s))[i := t]" "counts t = counts (taskAt s i)"
      "phase t \<noteq> Settled" "phase t \<noteq> Finished"
    and r: "processedCount s' = processedCount s" "totalCount s' = totalCount s"
      "countEvents isEnd s' = countEvents isEnd s"
      "filter isCounted (waiting (queue s')) = filter isCounted (waiting (queue s))"
    unfolding advances_def by blast
  from assms(1-4) r(1-3) t r(4) show ?thesis by (rule runInvariant_move)
qed

lemma runInvariant_Respond:
  assumes "runInvariant s" "step cfg (Respond i out) s = Some s'"
  shows "runInvariant s'"
proof -
  from assms(2) have p: "inPhase s i AwaitFetch" and s': "s' = onResponse cfg out i s"
    by (auto simp: step_def split: if_splits)
  from p have "i < length (started (queue s))" "phase (taskAt s i) \<noteq> Settled"
    "phase (taskAt s i) \<noteq> Finished"
    by (simp_all add: inPhase_def)
  with assms(1) show ?thesis
    unfolding s' by (rule runInvariant_advances) (rule advances_onResponse)
qed

lemma runInvariant_BodyDone:
  assumes "runInvariant s" "step cfg (BodyDone i ok) s = Some s'"
  shows "runInvariant s'"
proof -
  from assms(2) have p: "inPhase s i AwaitBody" and s': "s' = onBody ok i s"
    by (auto simp: step_def split: if_splits)
  from p have "i < length (started (queue s))" "phase (taskAt s i) \<noteq> Settled"
    "phase (taskAt s i) \<noteq> Finished"
    by (simp_all add: inPhase_def)
  with assms(1) show ?thesis
    unfolding s' by (rule runInvariant_advances) (rule advances_onBody)
qed

lemma owes_startTask: "owes (startTask j) = isCounted j"
  by (cases j) (simp_all add: owes_def startTask_def isCounted_def)

lemma runInvariant_Start:
  assumes "runInvariant s" "step cfg Start s = Some s'"
  shows "runInvariant s'"
proof -
  from assms(2) obtain j js where w: "waiting (queue s) = j # js"
    and s': "s' = emit (Downloading (target (startTask j)))
        (s\<lparr>queue := (queue s)\<lparr>waiting := js, started := started (queue s) @ [startTask j]\<rparr>\<rparr>)"
    by (auto simp: step_def split: list.splits if_splits)
  have ph: "phase (startTask j) \<noteq> Finished"
    by (cases j) (simp_all add: startTask_def)
  have u: "unsettled s' = unsettled s"
    by (simp add: s' unsettled_def emit_def w owes_startTask)
  have p: "0 < pending (queue s')"
    using ph by (simp add: s' pending_def emit_def)
  have e: "countEvents isEnd s' = countEvents isEnd s"
    by (simp add: s' countEvents_def emit_def isEnd_def)
  have c: "processedCount s' = processedCount s" "totalCount s' = totalCount s"
    by (simp_all add: s' emit_def)
  show ?thesis
    using assms(1) p by (simp add: runInvariant_def u e c w)
qed

lemma runInvariant_TimerFire:
  assumes "runInvariant s" "step cfg TimerFire s = Some s'"
  shows "runInvariant s'"
  using assms
  by (auto simp: step_def runInvariant_def unsettled_def pending_def countEvents_def
      split: list.splits)

lemma countProcessed_fields:
  "processedCount (countProcessed s) = Suc (processedCount s)"
  "totalCount (countProcessed s) = totalCount s"
  "queue (countProcessed s) = queue s"
  "countEvents isEnd (countProcessed s) =
     countEvents isEnd s + (if Suc (processedCount s) = totalCount s then 1 else 0)"
  by (simp_all add: countProcessed_def Let_def emit_def countEvents_def isEnd_def)

lemma runInvariant_Settle:
  assumes "runInvariant s" "step cfg (Settle i) s = Some s'"
  shows "runInvariant s'"
proof -
  let ?t = "taskAt s i"
  from assms(2) have p: "inPhase s i Returned"
    and s': "s' = setTask i (?t\<lparr>phase := Settled\<rparr>) (if counts ?t then countProcessed s else s)"
    by (auto simp: step_def split: if_splits)
  from p have i: "i < length (started (queue s))" and ph: "phase ?t = Returned"
    by (simp_all add: inPhase_def)
  have pend: "pending (queue s') = pending (queue s)"
    using i ph
    by (simp add: s' pending_def setTask_def countProcessed_fields taskAt_def filter_update_same)
  have p0: "0 < pending (queue s)"
    using i ph by (simp add: pending_pos)
  have w: "waiting (queue s') = waiting (queue s)"
    by (simp add: s' setTask_def countProcessed_fields)
  show ?thesis
  proof (cases "counts ?t")
    case True
    then have o: "owes (started (queue s) ! i)"
      using ph by (simp add: owes_def taskAt_def)
    have "Suc (length (filter owes (started (queue s'))))
        = length (filter owes (started (queue s)))"
      using True i o
      by (simp add: s' setTask_def countProcessed_fields taskAt_def filter_update_drop owes_def)
    then have u: "Suc (unsettled s') = unsettled s"
      by (simp add: unsettled_def w)
    have c: "processedCount s' = Suc (processedCount s)" "totalCount s' = totalCount s"
      "countEvents isEnd s' =
         countEvents isEnd s + (if Suc (processedCount s) = totalCount s then 1 else 0)"
      using True by (simp_all add: s' setTask_fields countEvents_setTask countProcessed_fields)
    show ?thesis
      using assms(1) u p0 by (auto simp: runInvariant_def c pend w)
  next
    case False
    then have "length (filter owes (started (queue s'))) = length (filter owes (started (queue s)))"
      using i by (simp add: s' setTask_def taskAt_def filter_update_same owes_def)
    then have u: "unsettled s' = unsettled s"
      by (simp add: unsettled_def w)
    have c: "processedCount s' = processedCount s" "totalCount s' = totalCount s"
      "countEvents isEnd s' = countEvents isEnd s"
      using False by (simp_all add: s' setTask_fields countEvents_setTask)
    show ?thesis
      using assms(1) p0 by (simp add: runInvariant_def c pend w u)
  qed
qed

lemma runInvariant_Next:
  assumes "runInvariant s" "step cfg (Next i) s = Some s'"
  shows "runInvariant s'"
proof -
  let ?t = "taskAt s i"
  let ?s1 = "setTask i (?t\<lparr>phase := Finished\<rparr>) s"
  from assms(2) have p: "inPhase s i Settled"
    and s': "s' = (if waiting (queue ?s1) = [] \<and> pending (queue ?s1) = 0 then onIdle ?s1 else ?s1)"
    by (auto simp: step_def Let_def split: if_splits)
  from p have i: "i < length (started (queue s))" and ph: "phase ?t = Settled"
    by (simp_all add: inPhase_def)
  have p0: "0 < pending (queue s)"
    using i ph by (simp add: pending_pos)
  have ne: "started (queue ?s1) \<noteq> []"
    using i by (auto simp: setTask_def)
  have "length (filter owes (started (queue ?s1))) = length (filter owes (started (queue s)))"
    using i ph by (simp add: setTask_def taskAt_def filter_update_same owes_def)
  then have u: "unsettled ?s1 = unsettled s"
    by (simp add: unsettled_def setTask_fields)
  have c: "processedCount ?s1 = processedCount s" "totalCount ?s1 = totalCount s"
    "countEvents isEnd ?s1 = countEvents isEnd s"
    by (simp_all add: setTask_fields countEvents_setTask)
  have idle: "processedCount (onIdle x) = processedCount x" "totalCount (onIdle x) = totalCount x"
    "queue (onIdle x) = queue x" "unsettled (onIdle x) = unsettled x"
    "countEvents isEnd (onIdle x) = Suc (countEvents isEnd x)" for x
    by (simp_all add: onIdle_def emit_def unsettled_def countEvents_def isEnd_def)
  show ?thesis
    using assms(1) p0 ne by (auto simp: runInvariant_def s' idle u c)
qed

lemma runInvariant_step:
  assumes "runInvariant s" "step cfg a s = Some s'"
  shows "runInvariant s'"
  using assms
  by (cases a)
     (auto intro: runInvariant_Start runInvariant_Respond runInvariant_BodyDone
        runInvariant_Settle runInvariant_Next runInvariant_TimerFire)

lemma visit_loop:
  assumes "processedCount s + unsettled s + Suc n = totalCount s"
    and "started (queue s) = []"
    and "countEvents isEnd s = (if 0 < totalCount s \<and> processedCount s = totalCount s then 1 else 0)"
  shows "processedCount (visit s b) + unsettled (visit s b) + n = totalCount (visit s b) \<and>
    started (queue (visit s b)) = [] \<and>
    countEvents isEnd (visit s b) =
      (if 0 < totalCount (visit s b) \<and> processedCount (visit s b) = totalCount (visit s b)
       then 1 else 0)"
proof (cases "isBeatmapExisting s (id_bms b)")
  case True
  then have f: "processedCount (visit s b) = Suc (processedCount s)"
    "unsettled (visit s b) = unsettled s" "totalCount (visit s b) = totalCount s"
    "started (queue (visit s b)) = started (queue s)"
    "countEvents isEnd (visit s b) =
       countEvents isEnd s + (if Suc (processedCount s) = totalCount s then 1 else 0)"
    by (simp_all add: visit_def countProcessed_def Let_def emit_def unsettled_def
        countEvents_def isEnd_def)
  show ?thesis
    using assms by (auto simp: f)
next
  case False
  then have f: "processedCount (visit s b) = processedCount s"
    "unsettled (visit s b) = Suc (unsettled s)" "totalCount (visit s b) = totalCount s"
    "started (queue (visit s b)) = started (queue s)"
    "countEvents isEnd (visit s b) = countEvents isEnd s"
    by (simp_all add: visit_def queue_add_def unsettled_def countEvents_def isCounted_def)
  show ?thesis
    using assms by (auto simp: f)
qed

lemma foldl_visit_loop:
  assumes "processedCount s + unsettled s + length bs = totalCount s"
    and "started (queue s) = []"
    and "countEvents isEnd s = (if 0 < totalCount s \<and> processedCount s = totalCount s then 1 else 0)"
  shows "runInvariant (foldl visit s bs)"
  using assms
proof (induction bs arbitrary: s)
  case Nil
  then show ?case by (simp add: runInvariant_def)
next
  case (Cons b bs)
  from Cons.prems have "processedCount s + unsettled s + Suc (length bs) = totalCount s"
    by simp
  from visit_loop [OF this Cons.prems(2,3), of b]
  have a: "processedCount (visit s b) + unsettled (visit s b) + length bs = totalCount (visit s b)"
    and b: "started (queue (visit s b)) = []"
    and c: "countEvents isEnd (visit s b) =
      (if 0 < totalCount (visit s b) \<and> processedCount (visit s b) = totalCount (visit s b)
       then 1 else 0)"
    by blast+
  from Cons.IH [OF a b c] show ?case
    by simp
qed

lemma indexEntry_run:
  "queue (indexEntry s f) = queue s"
  "countEvents isEnd (indexEntry s f) = countEvents isEnd s"
  by (simp_all add: indexEntry_def Let_def emit_def countEvents_def isEnd_def split: option.splits)

lemma foldl_indexEntry_run:
  "queue (foldl indexEntry s fs) = queue s \<and>
   countEvents isEnd (foldl indexEntry s fs) = countEvents isEnd s"
  by (induction fs arbitrary: s) (simp_all add: indexEntry_run)

lemma setSongsDirectory_run:
  "queue (setSongsDirectory d listing (new_DownloadManager cfg)) = queue (new_DownloadManager cfg)"
  "countEvents isEnd (setSongsDirectory d listing (new_DownloadManager cfg)) = 0"
proof -
  show "queue (setSongsDirectory d listing (new_DownloadManager cfg)) =
      queue (new_DownloadManager cfg)"
    by (cases listing)
       (simp_all add: setSongsDirectory_def indexSongsFolder_def foldl_indexEntry_run)
  have u: "countEvents isEnd (x\<lparr>songsDirectory := d\<rparr>) = countEvents isEnd x"
    "countEvents isEnd (x\<lparr>totalSongs := n\<rparr>) = countEvents isEnd x" for x n
    by (simp_all add: countEvents_def)
  have "countEvents isEnd (new_DownloadManager cfg) = 0"
    by (simp add: new_DownloadManager_def countEvents_def)
  then show "countEvents isEnd (setSongsDirectory d listing (new_DownloadManager cfg)) = 0"
    by (cases listing)
       (simp_all add: setSongsDirectory_def indexSongsFolder_def foldl_indexEntry_run u)
qed

lemma runInvariant_bulkDownload:
  "runInvariant (bulkDownload bs (setSongsDirectory d listing (new_DownloadManager cfg)))"
proof -
  let ?i = "setSongsDirectory d listing (new_DownloadManager cfg)"
  have q: "waiting (queue ?i) = []" "started (queue ?i) = []"
    unfolding setSongsDirectory_run by (simp_all add: new_DownloadManager_def)
  have e: "countEvents isEnd (?i\<lparr>processedCount := 0, totalCount := length bs\<rparr>) = 0"
    using setSongsDirectory_run(2) [of d listing cfg] by (simp add: countEvents_def)
  show ?thesis
    unfolding bulkDownload_def
    by (rule foldl_visit_loop) (simp_all add: unsettled_def q e)
qed

lemma totalCount_step:
  assumes "step cfg a s = Some s'"
  shows "totalCount s' = totalCount s"
proof (cases a)
  case Start
  with assms show ?thesis
    by (auto simp: step_def emit_def split: list.splits if_splits)
next
  case (Respond i out)
  with assms have "s' = onResponse cfg out i s"
    by (auto simp: step_def split: if_splits)
  with advances_onResponse [of i s cfg out] show ?thesis
    by (simp add: advances_def)
next
  case (BodyDone i ok)
  with assms have "s' = onBody ok i s"
    by (auto simp: step_def split: if_splits)
  with advances_onBody [of i s ok] show ?thesis
    by (simp add: advances_def)
next
  case (Settle i)
  with assms show ?thesis
    by (auto simp: step_def setTask_fields countProcessed_fields split: if_splits)
next
  case (Next i)
  with assms show ?thesis
    by (auto simp: step_def Let_def setTask_fields onIdle_def emit_def split: if_splits)
next
  case TimerFire
  with assms show ?thesis
    by (auto simp: step_def split: list.splits)
qed

lemma totalCount_visit: "totalCount (visit s b) = totalCount s"
  by (simp add: visit_def countProcessed_def Let_def emit_def queue_add_def)

lemma totalCount_bulkDownload: "totalCount (bulkDownload bs s) = length bs"
proof -
  have "totalCount (foldl visit x bs) = totalCount x" for x
    by (induction bs arbitrary: x) (simp_all add: totalCount_visit)
  then show ?thesis by (simp add: bulkDownload_def)
qed

lemma step_empty_queue:
  assumes "step cfg a s = Some s'" "started (queue s) = []" "waiting (queue s) = []"
  shows "started (queue s') = [] \<and> waiting (queue s') = []"
  using assms by (cases a) (auto simp: step_def inPhase_def split: list.splits)

lemma visit_populated:
  "started (queue (visit s b)) = started (queue s)"
  "waiting (queue s) = [] \<or> 0 < n \<Longrightarrow> waiting (queue (visit s b)) = [] \<or> 0 < Suc n"
  by (simp_all add: visit_def countProcessed_def Let_def emit_def queue_add_def)

lemma bulkDownload_empty:
  "started (queue (bulkDownload [] s)) = started (queue s)"
  "waiting (queue (bulkDownload [] s)) = waiting (queue s)"
  by (simp_all add: bulkDownload_def)

lemma pending_zero_owes:
  assumes "pending q = 0"
  shows "filter owes (started q) = []"
proof -
  from assms have "\<forall>t \<in> set (started q). phase t = Finished"
    by (auto simp: pending_def filter_empty_conv)
  then show ?thesis
    by (auto simp: filter_empty_conv owes_def)
qed

lemma idle_unsettled:
  "waiting (queue s) = [] \<Longrightarrow> pending (queue s) = 0 \<Longrightarrow> unsettled s = 0"
  by (simp add: unsettled_def pending_zero_owes)


text \<open>
  Claim C1, as amended. In every state a run can reach, \<^verbatim>\<open>end\<close> has been emitted once if
  the target set is not empty and the counter of processed targets has reached its size,
  plus once if the queue has started at least one task and has none pending and none
  waiting: the listener of the queue's \<^verbatim>\<open>idle\<close> event is not guarded. The counter and
  the counting closures that have not counted yet add up to the size of the target set.
  So once the queue is idle after a task, \<^verbatim>\<open>end\<close> has been emitted twice; a run over
  targets that are all skipped emits it once; a run over no target never emits it.
\<close>

theorem end_emitted_by_counter_and_by_idle:
  assumes "exec cfg acts
      (bulkDownload beatMapSets (setSongsDirectory d listing (new_DownloadManager cfg))) = Some s"
  shows "countEvents isEnd s =
      (if beatMapSets \<noteq> [] \<and> processedCount s = length beatMapSets then 1 else 0) +
      (if started (queue s) \<noteq> [] \<and> waiting (queue s) = [] \<and> pending (queue s) = 0
       then 1 else 0) \<and>
    processedCount s + unsettled s = length beatMapSets \<and>
    (started (queue s) \<noteq> [] \<and> waiting (queue s) = [] \<and> pending (queue s) = 0 \<longrightarrow>
       countEvents isEnd s = 2) \<and>
    (beatMapSets \<noteq> [] \<and> started (queue s) = [] \<and> waiting (queue s) = [] \<longrightarrow>
       countEvents isEnd s = 1) \<and>
    (beatMapSets = [] \<longrightarrow> countEvents isEnd s = 0)"
proof -
  let ?i = "setSongsDirectory d listing (new_DownloadManager cfg)"
  let ?s0 = "bulkDownload beatMapSets ?i"
  let ?P = "\<lambda>x. runInvariant x \<and> totalCount x = length beatMapSets \<and>
    (beatMapSets = [] \<longrightarrow> started (queue x) = [] \<and> waiting (queue x) = [])"
  have q: "waiting (queue ?i) = []" "started (queue ?i) = []"
    unfolding setSongsDirectory_run by (simp_all add: new_DownloadManager_def)
  have "?P s"
    using assms
  proof (rule exec_invariant)
    show "?P ?s0"
      by (simp add: runInvariant_bulkDownload totalCount_bulkDownload bulkDownload_empty q)
  next
    fix a x x'
    assume i: "?P x" and st: "step cfg a x = Some x'"
    from i st have "runInvariant x'"
      by (simp add: runInvariant_step [of x cfg a x'])
    moreover from i totalCount_step [OF st] have "totalCount x' = length beatMapSets"
      by simp
    moreover from i step_empty_queue [OF st]
    have "beatMapSets = [] \<longrightarrow> started (queue x') = [] \<and> waiting (queue x') = []"
      by simp
    ultimately show "?P x'"
      by simp
  qed
  then have inv: "runInvariant s" and tc: "totalCount s = length beatMapSets"
    and e: "beatMapSets = [] \<longrightarrow> started (queue s) = [] \<and> waiting (queue s) = []"
    by simp_all
  from inv tc have c: "countEvents isEnd s =
      (if beatMapSets \<noteq> [] \<and> processedCount s = length beatMapSets then 1 else 0) +
      (if started (queue s) \<noteq> [] \<and> waiting (queue s) = [] \<and> pending (queue s) = 0
       then 1 else 0)"
    and u: "processedCount s + unsettled s = length beatMapSets"
    by (auto simp: runInvariant_def)
  have two: "countEvents isEnd s = 2"
    if "started (queue s) \<noteq> [] \<and> waiting (queue s) = [] \<and> pending (queue s) = 0"
  proof -
    from that have "unsettled s = 0" by (simp add: idle_unsettled)
    with u have "processedCount s = length beatMapSets" by simp
    moreover from that e have "beatMapSets \<noteq> []" by auto
    ultimately show ?thesis using c that by simp
  qed
  have one: "countEvents isEnd s = 1"
    if "beatMapSets \<noteq> [] \<and> started (queue s) = [] \<and> waiting (queue s) = []"
  proof -
    from that have "unsettled s = 0" by (simp add: unsettled_def)
    with u have "processedCount s = length beatMapSets" by simp
    then show ?thesis using c that by simp
  qed
  have none: "countEvents isEnd s = 0" if "beatMapSets = []"
    using c e that by simp
  from c u two one none show ?thesis
    by blast
qed


lemma ex_strings:
  "leadingDigits ''1 Artist - Title'' = Some ''1''" "toString 1 = ''1''" "toString 2 = ''2''"
  by code_simp+

lemma ex_indexed_state:
  "ex_indexed =
     \<lparr>songsDirectory = ''Songs'', existingBeatmaps = [''1'' \<mapsto> True], indexedSongs = 1,
      totalSongs = 1,
      queue = \<lparr>isPaused = False, concurrency = 3, waiting = [], started = []\<rparr>,
      downloadedBeatMapSetSize = 0, notDownloadedBeatMapSet = [], testRequest = False,
      processedCount = 0, totalCount = 0, timers = [], emitted = [Indexing 1 1]\<rparr>"
  by (simp add: ex_indexed_def setSongsDirectory_def indexSongsFolder_def indexEntry_def
      emit_def Let_def ex_strings new_DownloadManager_def configuredConcurrency_def ex_cfg_def)

lemmas run_defs2 =
  ex_indexed_state ex_strings ex_cfg_def ex_set_def ex_resp_def bulkDownload_def visit_def
  isBeatmapExisting_def queue_add_def configuredConcurrency_def
  step_def startTask_def emit_def pending_def inPhase_def taskAt_def onResponse_def
  onCatch_def setTask_def getFilename_def getFilenameWith_def headers_get_def
  emitRateLimited_def
  onRateLimited_def countProcessed_def onIdle_def onBody_def endProbe_def Let_def
  defaultFileName_def countEvents_def isEnd_def isDownloaded_def isSkipped_def
  getDownloadedBeatMapSetSize_def

text \<open>
  Claim C1 as stated fails: one target, downloaded at the first attempt, and \<^verbatim>\<open>end\<close>
  is emitted by the counter and again by the \<^verbatim>\<open>idle\<close> listener.
\<close>

theorem end_emitted_twice_counterexample:
  "map_option emitted
     (exec ex_cfg [Start, Respond 0 (Resp (ex_resp 200)), BodyDone 0 True, Settle 0, Next 0]
        ex_run) =
   Some [Downloading ex_set, Downloaded ex_set, End [], End []] \<and>
   map_option (countEvents isEnd)
     (exec ex_cfg [Start, Respond 0 (Resp (ex_resp 200)), BodyDone 0 True, Settle 0, Next 0]
        ex_run) = Some 2"
  by (simp add: run_defs)

text \<open>
  A directory that holds set 1: a run over sets 1 and 2 skips the first, downloads the
  second and emits \<^verbatim>\<open>end\<close> twice; a run over set 1 alone emits it once; a run over no
  set never emits it.
\<close>

theorem end_emitted_witness:
  "map_option (\<lambda>s. (countEvents isEnd s, processedCount s, started (queue s) \<noteq> [],
       waiting (queue s), pending (queue s)))
     (exec ex_cfg [Start, Respond 0 (Resp (ex_resp 200)), BodyDone 0 True, Settle 0, Next 0]
        (bulkDownload [ex_set, \<lparr>id_bms = 2\<rparr>] ex_indexed)) = Some (2, 2, True, [], 0) \<and>
   map_option (\<lambda>s. (countEvents isEnd s, processedCount s, started (queue s)))
     (exec ex_cfg [] (bulkDownload [ex_set] ex_indexed)) = Some (1, 1, []) \<and>
   map_option (countEvents isEnd) (exec ex_cfg [] (bulkDownload [] ex_indexed)) = Some 0"
proof -
  let ?acts = "[Start, Respond 0 (Resp (ex_resp 200)), BodyDone 0 True, Settle 0, Next 0]"
  let ?two = "[ex_set, \<lparr>id_bms = 2\<rparr>]"
  have "case exec ex_cfg ?acts (bulkDownload ?two ex_indexed) of
          None \<Rightarrow> False
        | Some s \<Rightarrow> processedCount s = 2 \<and> started (queue s) \<noteq> [] \<and>
            waiting (queue s) = [] \<and> pending (queue s) = 0"
    by (simp add: run_defs2)
  then obtain s where r: "exec ex_cfg ?acts (bulkDownload ?two ex_indexed) = Some s"
    and p: "processedCount s = 2" "started (queue s) \<noteq> []" "waiting (queue s) = []"
      "pending (queue s) = 0"
    by (auto split: option.splits)
  from end_emitted_by_counter_and_by_idle [of ex_cfg ?acts ?two "''Songs''"
      "Some [''1 Artist - Title'']" s] r p
  have a: "countEvents isEnd s = 2"
    by (simp add: ex_indexed_def)
  have "case exec ex_cfg [] (bulkDownload [ex_set] ex_indexed) of
          None \<Rightarrow> False
        | Some s \<Rightarrow> processedCount s = 1 \<and> started (queue s) = []"
    by (simp add: run_defs2)
  then obtain s1 where r1: "exec ex_cfg [] (bulkDownload [ex_set] ex_indexed) = Some s1"
    and p1: "processedCount s1 = 1" "started (queue s1) = []"
    by (auto split: option.splits)
  from end_emitted_by_counter_and_by_idle [of ex_cfg "[]" "[ex_set]" "''Songs''"
      "Some [''1 Artist - Title'']" s1] r1 p1
  have b: "countEvents isEnd s1 = 1"
    by (simp add: ex_indexed_def)
  have "case exec ex_cfg [] (bulkDownload [] ex_indexed) of
          None \<Rightarrow> False
        | Some s \<Rightarrow> started (queue s) = []"
    by (simp add: run_defs2)
  then obtain s2 where r2: "exec ex_cfg [] (bulkDownload [] ex_indexed) = Some s2"
    and p2: "started (queue s2) = []"
    by (auto split: option.splits)
  from end_emitted_by_counter_and_by_idle [of ex_cfg "[]" "[]" "''Songs''"
      "Some [''1 Artist - Title'']" s2] r2 p2
  have c: "countEvents isEnd s2 = 0"
    by (simp add: ex_indexed_def)
  show ?thesis
    unfolding r r1 r2 using a b c p p1 by simp
qed


text \<open>
  Claim C2 on a run whose only target is rate-limited at its first attempt: the 429
  branch returns, the closure of \<^verbatim>\<open>bulkDownload\<close> counts the target as processed and
  emits \<^verbatim>\<open>end\<close> while the target waits in the queue, with no set downloaded, skipped or
  failed, against a total of 1.
\<close>

theorem end_emitted_before_terminal_state:
  "map_option (\<lambda>s. (emitted s, getDownloadedBeatMapSetSize s, notDownloadedBeatMapSet s,
       totalCount s, waiting (queue s)))
     (exec ex_cfg [Start, Respond 0 (Resp (ex_resp 429)), Settle 0] ex_run) =
   Some ([Downloading ex_set, RateLimited, End []], 0, [], 1, [Requeued ex_set])"
  by (simp add: run_defs getDownloadedBeatMapSetSize_def)

end
